theory Spec2Isabelle
  imports Complex_Main
begin

section \<open>A shallow embedding of \<open>src/SpatialGrid.ts\<close>\<close>

text \<open>
  Numbers. A TypeScript \<open>number\<close> is a binary64 floating-point value. A finite double is
  modelled by the \<^typ>\<open>real\<close> it denotes, and every \<open>+\<close>, \<open>-\<close>, \<open>*\<close>, \<open>/\<close> and \<open>** 2\<close> of the
  source is followed by \<open>fl\<close>, the rounding of the exact result to the nearest double (ties to
  even, gradual underflow). \<open>Math.floor\<close>, \<open>Math.ceil\<close>, \<open>Math.abs\<close>, \<open>Math.min\<close>,
  \<open>Math.max\<close>, negation and the comparisons are exact on doubles. \<open>-0\<close> is identified with
  \<open>0\<close>; the code never tells them apart.

  Overflow to \<open>Infinity\<close> is not modelled by \<open>fl\<close>. The predicate \<open>number\<close> holds of the
  doubles of magnitude at most \<open>2 ^ 500\<close>; on such inputs no sum, difference or product of
  the program overflows. A quotient may still overflow: a quotient that is floored or ceiled
  to a tile number is kept in range by the bounds on tile numbers below, and the quotient of
  the line query is clamped to \<open>[0, 1]\<close>, which maps an infinite quotient where the finite
  quotient of the model goes. A division of a non-zero number by \<open>0\<close> (an infinity) and
  \<open>0 / 0\<close> (\<open>NaN\<close>) occur in the line query only and are written out there. HOL's
  \<open>x / 0 = 0\<close> is not JavaScript's, so every theorem that depends on a division by \<open>tileSize\<close>
  assumes \<open>0 < tileSize\<close>.

  Counters. A value that the code obtains from \<open>Math.floor\<close> or \<open>Math.ceil\<close> and then only
  steps by one, adds to or compares with such values is an \<^typ>\<open>int\<close>. This is what the
  code computes as long as these integers stay below \<open>2 ^ 53\<close> in magnitude, where doubles
  represent every integer; from \<open>2 ^ 53\<close> on \<open>x++\<close> no longer changes \<open>x\<close> and a loop of
  the source does not end. The predicates \<open>valid_store\<close>, \<open>valid_neighbors\<close>,
  \<open>valid_circle\<close>, \<open>valid_rect\<close> and \<open>valid_line\<close> below state these bounds, and the
  theorems about \<open>update\<close> and the queries assume them.

  Identity. A \<open>SpatialGridObject\<close> is a mutable object owned by the caller and compared by
  reference. A reference is a handle of type \<open>ref\<close>; a heap maps each handle to the fields the
  object has at the moment. The store keeps handles only, so two objects with equal fields stay
  distinct, and the same object may occur several times in a list.

  Debug trace. \<open>debug\<close> and \<open>lastCheckedTiles\<close> are a write-only side channel: no result
  and no bucket depends on them. They are left out of the store record.
\<close>

subsection \<open>Double-precision rounding\<close>

text \<open>The integer nearest to \<open>t\<close>, the even one of two nearest.\<close>

definition rne :: "real \<Rightarrow> int" where
  "rne t = (let f = \<lfloor>t\<rfloor>; d = t - of_int f in
            if d < 1 / 2 then f else if 1 / 2 < d then f + 1
            else if even f then f else f + 1)"

text \<open>
  The exponent of the unit in the last place of the doubles around \<open>x\<close>: 53 significant bits,
  and the least exponent \<open>-1022\<close> of a normal double, below which the spacing stays
  \<open>2 ^ -1074\<close>.
\<close>

definition ulp_exp :: "real \<Rightarrow> int" where
  "ulp_exp x = max \<lfloor>log 2 \<bar>x\<bar>\<rfloor> (- 1022) - 52"

definition fl :: "real \<Rightarrow> real" where
  "fl x = (if x = 0 then 0
           else sgn x * (2 powr of_int (ulp_exp x) * of_int (rne (\<bar>x\<bar> / 2 powr of_int (ulp_exp x)))))"

text \<open>
  The same exponent and power of two by halving and doubling, for the evaluation of \<open>fl\<close> on
  concrete numbers (\<open>fl_code\<close> below).
\<close>

function ilog2 :: "real \<Rightarrow> int" where
  "ilog2 x = (if x \<le> 0 then 0 else if x < 1 then ilog2 (2 * x) - 1
              else if 2 \<le> x then ilog2 (x / 2) + 1 else 0)"
  by pat_completeness auto
termination
proof (relation "measure (\<lambda>x. nat \<bar>\<lfloor>log 2 x\<rfloor>\<bar>)")
  show "wf (measure (\<lambda>x. nat \<bar>\<lfloor>log 2 x\<rfloor>\<bar>))" by simp
next
  fix x :: real
  assume a: "\<not> x \<le> 0" "x < 1"
  then have "log 2 x < 0" by simp
  then have "log 2 x < of_int 0" by simp
  then have f: "\<lfloor>log 2 x\<rfloor> < 0" by (rule floor_less_iff[THEN iffD2])
  have "log 2 (2 * x) = 1 + log 2 x" using a by (simp add: log_mult)
  then have "\<lfloor>log 2 (2 * x)\<rfloor> = 1 + \<lfloor>log 2 x\<rfloor>" by simp
  with f have "nat \<bar>\<lfloor>log 2 (2 * x)\<rfloor>\<bar> < nat \<bar>\<lfloor>log 2 x\<rfloor>\<bar>" by linarith
  then show "(2 * x, x) \<in> measure (\<lambda>x. nat \<bar>\<lfloor>log 2 x\<rfloor>\<bar>)" by (simp only: in_measure)
next
  fix x :: real
  assume a: "\<not> x \<le> 0" "\<not> x < 1" "2 \<le> x"
  then have "1 \<le> log 2 x" by (simp add: le_log_iff)
  then have "of_int 1 \<le> log 2 x" by simp
  then have f: "1 \<le> \<lfloor>log 2 x\<rfloor>" by (rule le_floor_iff[THEN iffD2])
  have "log 2 (x / 2) = log 2 x - 1" using a by (simp add: log_divide)
  then have "\<lfloor>log 2 (x / 2)\<rfloor> = \<lfloor>log 2 x\<rfloor> - 1" by simp
  with f have "nat \<bar>\<lfloor>log 2 (x / 2)\<rfloor>\<bar> < nat \<bar>\<lfloor>log 2 x\<rfloor>\<bar>" by linarith
  then show "(x / 2, x) \<in> measure (\<lambda>x. nat \<bar>\<lfloor>log 2 x\<rfloor>\<bar>)" by (simp only: in_measure)
qed

declare ilog2.simps [simp del]

definition pow2 :: "int \<Rightarrow> real" where
  "pow2 e = (if 0 \<le> e then 2 ^ nat e else 1 / 2 ^ nat (- e))"

text \<open>
  A double small enough that no sum, difference or product of the program overflows, and an
  optional field that is absent or holds such a double.
\<close>

definition number :: "real \<Rightarrow> bool" where
  "number x \<longleftrightarrow> fl x = x \<and> \<bar>x\<bar> \<le> 2 ^ 500"

definition number_opt :: "real option \<Rightarrow> bool" where
  "number_opt v = (case v of None \<Rightarrow> True | Some a \<Rightarrow> number a)"

subsection \<open>Data\<close>

type_synonym ref = nat

record SpatialGridObject =
  obj_x :: real
  obj_y :: real
  obj_radius :: "real option"
  obj_left :: "real option"
  obj_right :: "real option"
  obj_top :: "real option"
  obj_bottom :: "real option"

type_synonym heap = "ref \<Rightarrow> SpatialGridObject"

record SpatialGrid =
  width :: real
  height :: real
  tileSize :: real
  objects :: "ref list"
  grid :: "ref list list"

text \<open>
  Iterating over \<open>undefined\<close> (a bucket read outside the array) throws a \<open>TypeError\<close>;
  creating an array of \<open>2 ^ 32\<close> or more elements throws a \<open>RangeError\<close>.
\<close>

datatype error = TypeError | RangeError

text \<open>The constructor: \<open>objects = []\<close> and \<open>#grid = []\<close> are the field initialisers.\<close>

definition new_SpatialGrid :: "real \<Rightarrow> real \<Rightarrow> real \<Rightarrow> SpatialGrid" where
  "new_SpatialGrid w h ts = \<lparr>width = w, height = h, tileSize = ts, objects = [], grid = []\<rparr>"

subsection \<open>JavaScript operators and loops\<close>

text \<open>\<open>a ?? d\<close>: the default is taken for an absent field only.\<close>

definition nullish :: "real option \<Rightarrow> real \<Rightarrow> real" where
  "nullish v d = (case v of None \<Rightarrow> d | Some a \<Rightarrow> a)"

text \<open>\<open>a || d\<close>: the default is taken for an absent field and for the falsy number \<open>0\<close>.\<close>

definition or_else :: "real option \<Rightarrow> real \<Rightarrow> real" where
  "or_else v d = (case v of None \<Rightarrow> d | Some a \<Rightarrow> if a = 0 then d else a)"

text \<open>A \<open>for\<close> loop over the values \<open>vs\<close> whose body may throw: the first error ends it.\<close>

fun forEach :: "'a list \<Rightarrow> ('a \<Rightarrow> 's \<Rightarrow> error + 's) \<Rightarrow> 's \<Rightarrow> error + 's" where
  "forEach [] body st = Inr st"
| "forEach (v # vs) body st =
     (case body v st of Inl e \<Rightarrow> Inl e | Inr st' \<Rightarrow> forEach vs body st')"

text \<open>
  \<open>Set.add\<close> on a set of object references: a \<open>Set\<close> iterates in insertion order, and adding
  a member again changes nothing.
\<close>

definition set_add :: "ref list \<Rightarrow> ref \<Rightarrow> ref list" where
  "set_add S obj = (if obj \<in> set S then S else S @ [obj])"

text \<open>
  \<open>arr[i]\<close> for a number \<open>i\<close>: an element when \<open>i\<close> is an integer inside the array, otherwise
  \<open>undefined\<close>, on which both \<open>for ... of\<close> and \<open>.push\<close> throw.
\<close>

definition is_index :: "'a list \<Rightarrow> real \<Rightarrow> bool" where
  "is_index g i \<longleftrightarrow> of_int \<lfloor>i\<rfloor> = i \<and> 0 \<le> i \<and> i < of_nat (length g)"

definition bucketAt :: "ref list list \<Rightarrow> real \<Rightarrow> error + ref list" where
  "bucketAt g i = (if is_index g i then Inr (g ! nat \<lfloor>i\<rfloor>) else Inl TypeError)"

text \<open>\<open>this.#grid[tileIndex].push(obj)\<close>\<close>

definition push :: "ref list list \<Rightarrow> real \<Rightarrow> ref \<Rightarrow> error + ref list list" where
  "push g i obj =
     (if is_index g i then Inr (g[nat \<lfloor>i\<rfloor> := g ! nat \<lfloor>i\<rfloor> @ [obj]]) else Inl TypeError)"

text \<open>\<open>for (const obj of this.#grid[tileIndex]) set.add(obj)\<close>\<close>

definition visit :: "ref list list \<Rightarrow> real \<Rightarrow> ref list \<Rightarrow> error + ref list" where
  "visit g i S = (case bucketAt g i of Inl e \<Rightarrow> Inl e | Inr b \<Rightarrow> Inr (foldl set_add S b))"

subsection \<open>The store\<close>

definition add :: "SpatialGrid \<Rightarrow> ref list \<Rightarrow> SpatialGrid" where
  "add s objs = s\<lparr>objects := objects s @ objs\<rparr>"

definition remove :: "SpatialGrid \<Rightarrow> ref list \<Rightarrow> SpatialGrid" where
  "remove s objs = s\<lparr>objects := filter (\<lambda>obj. obj \<notin> set objs) (objects s)\<rparr>"

definition xTiles :: "SpatialGrid \<Rightarrow> int" where
  "xTiles s = \<lfloor>fl (width s / tileSize s)\<rfloor>"

definition yTiles :: "SpatialGrid \<Rightarrow> int" where
  "yTiles s = \<lfloor>fl (height s / tileSize s)\<rfloor>"

text \<open>The bounds test and the bucket index that \<open>update\<close> and all four queries write inline.\<close>

definition inBounds :: "SpatialGrid \<Rightarrow> real \<Rightarrow> real \<Rightarrow> bool" where
  "inBounds s tx ty \<longleftrightarrow>
     tx \<ge> 0 \<and> tx < of_int (xTiles s) \<and> ty \<ge> 0 \<and> ty < of_int (yTiles s)"

definition tileIndex :: "SpatialGrid \<Rightarrow> real \<Rightarrow> real \<Rightarrow> real" where
  "tileIndex s tx ty = fl (fl (ty * of_int (xTiles s)) + tx)"

text \<open>The four tile bounds that \<open>update\<close> computes for one object.\<close>

definition startX :: "SpatialGrid \<Rightarrow> SpatialGridObject \<Rightarrow> int" where
  "startX s obj =
     \<lfloor>fl (nullish (obj_left obj) (fl (obj_x obj - nullish (obj_radius obj) 0)) / tileSize s)\<rfloor>"

definition startY :: "SpatialGrid \<Rightarrow> SpatialGridObject \<Rightarrow> int" where
  "startY s obj =
     \<lfloor>fl (nullish (obj_top obj) (fl (obj_y obj - nullish (obj_radius obj) 0)) / tileSize s)\<rfloor>"

definition endX :: "SpatialGrid \<Rightarrow> SpatialGridObject \<Rightarrow> int" where
  "endX s obj =
     \<lfloor>fl (nullish (obj_right obj) (fl (obj_x obj + nullish (obj_radius obj) 0)) / tileSize s)\<rfloor>"

definition endY :: "SpatialGrid \<Rightarrow> SpatialGridObject \<Rightarrow> int" where
  "endY s obj =
     \<lfloor>fl (nullish (obj_bottom obj) (fl (obj_y obj + nullish (obj_radius obj) 0)) / tileSize s)\<rfloor>"

text \<open>
  \<open>update\<close>. \<open>Array.from({length: n}, () => [])\<close> has no element for \<open>n \<le> 0\<close> and throws
  for \<open>n \<ge> 2 ^ 32\<close>. The object fields are read from the heap as it is when \<open>update\<close>
  runs. A \<open>push\<close> on a missing bucket would throw as well; that this never happens is
  proved below (\<open>update_eq\<close>), not assumed.
\<close>

definition update :: "heap \<Rightarrow> SpatialGrid \<Rightarrow> error + SpatialGrid" where
  "update h s =
     (if 2 ^ 32 \<le> xTiles s * yTiles s then Inl RangeError
      else
        case
          forEach (objects s) (\<lambda>obj.
            forEach [startX s (h obj)..endX s (h obj)] (\<lambda>x.
              forEach [startY s (h obj)..endY s (h obj)] (\<lambda>y g.
                if inBounds s (of_int x) (of_int y)
                then push g (tileIndex s (of_int x) (of_int y)) obj
                else Inr g)))
            (replicate (nat (xTiles s * yTiles s)) [])
        of Inl e \<Rightarrow> Inl e | Inr g \<Rightarrow> Inr (s\<lparr>grid := g\<rparr>))"

subsection \<open>Queries\<close>

text \<open>
  The values of \<open>for (let o = -n; o <= n; o++)\<close> for a double \<open>n < 2 ^ 53\<close>: \<open>-n, -n + 1, ...\<close>
  as long as they do not exceed \<open>n\<close>; none when \<open>n\<close> is negative. These sums are exact: for
  \<open>n \<ge> 1 / 2\<close> each is a multiple of the unit in the last place of \<open>n\<close> and not larger
  than \<open>n\<close> in magnitude, and for \<open>n < 1 / 2\<close> the loop has the single value \<open>-n\<close>.
\<close>

definition offsets :: "real \<Rightarrow> real list" where
  "offsets n = map (\<lambda>k. - n + of_int k) [0..\<lfloor>2 * n\<rfloor>]"

definition getNeighbors :: "SpatialGrid \<Rightarrow> real \<Rightarrow> real \<Rightarrow> real \<Rightarrow> error + ref list" where
  "getNeighbors s x y neighborTiles =
     (let tileX = \<lfloor>fl (x / tileSize s)\<rfloor>; tileY = \<lfloor>fl (y / tileSize s)\<rfloor> in
      forEach (offsets neighborTiles) (\<lambda>offsetX.
        forEach (offsets neighborTiles) (\<lambda>offsetY uniqueNeighbors.
          let neighborX = fl (of_int tileX + offsetX); neighborY = fl (of_int tileY + offsetY) in
          if inBounds s neighborX neighborY
          then visit (grid s) (tileIndex s neighborX neighborY) uniqueNeighbors
          else Inr uniqueNeighbors))
        [])"

definition circleHit :: "SpatialGridObject \<Rightarrow> real \<Rightarrow> real \<Rightarrow> real \<Rightarrow> bool" where
  "circleHit obj x y radius =
     (let objRadius = or_else (obj_radius obj) 0;
          dx = fl (obj_x obj - x);
          dy = fl (obj_y obj - y);
          distanceSquared = fl (fl (dx * dx) + fl (dy * dy));
          radiiSum = fl (objRadius + radius)
      in distanceSquared \<le> fl (radiiSum * radiiSum))"

definition getObjectsIntersectingCircle ::
  "heap \<Rightarrow> SpatialGrid \<Rightarrow> real \<Rightarrow> real \<Rightarrow> real \<Rightarrow> error + ref list" where
  "getObjectsIntersectingCircle h s x y radius =
     (case getNeighbors s x y (of_int \<lceil>fl (radius / tileSize s)\<rceil>) of
        Inl e \<Rightarrow> Inl e
      | Inr candidates \<Rightarrow> Inr (filter (\<lambda>obj. circleHit (h obj) x y radius) candidates))"

definition rectHit :: "SpatialGridObject \<Rightarrow> real \<Rightarrow> real \<Rightarrow> real \<Rightarrow> real \<Rightarrow> bool" where
  "rectHit obj x y w ht =
     (let objLeft = nullish (obj_left obj) (obj_x obj);
          objRight = nullish (obj_right obj) (obj_x obj);
          objTop = nullish (obj_top obj) (obj_y obj);
          objBottom = nullish (obj_bottom obj) (obj_y obj)
      in objRight \<ge> x \<and> objLeft \<le> fl (x + w) \<and> objBottom \<ge> y \<and> objTop \<le> fl (y + ht))"

text \<open>The rectangle query pushes every passing object of every visited bucket; it keeps no set.\<close>

definition getObjectsIntersectingRect ::
  "heap \<Rightarrow> SpatialGrid \<Rightarrow> real \<Rightarrow> real \<Rightarrow> real \<Rightarrow> real \<Rightarrow> error + ref list" where
  "getObjectsIntersectingRect h s x y w ht =
     forEach [\<lfloor>fl (x / tileSize s)\<rfloor>..\<lfloor>fl (fl (x + w) / tileSize s)\<rfloor>] (\<lambda>tileX.
       forEach [\<lfloor>fl (y / tileSize s)\<rfloor>..\<lfloor>fl (fl (y + ht) / tileSize s)\<rfloor>]
         (\<lambda>tileY intersectingObjects.
           if inBounds s (of_int tileX) (of_int tileY)
           then (case bucketAt (grid s) (tileIndex s (of_int tileX) (of_int tileY)) of
                   Inl e \<Rightarrow> Inl e
                 | Inr b \<Rightarrow>
                     Inr (intersectingObjects @ filter (\<lambda>obj. rectHit (h obj) x y w ht) b))
           else Inr intersectingObjects))
       []"

text \<open>
  The \<open>while (true)\<close> loop of the line query. Its result is \<open>None\<close> when the loop does not
  return. \<open>neighborTiles\<close> is a \<open>Set\<close> of freshly allocated \<open>{x, y}\<close> literals, which are
  pairwise different references: nothing is ever merged, so it is a list.
\<close>

partial_function (option) bresenham ::
  "SpatialGrid \<Rightarrow> int \<Rightarrow> int \<Rightarrow> int \<Rightarrow> int \<Rightarrow> int \<Rightarrow> int \<Rightarrow> int \<Rightarrow> int \<Rightarrow> int \<Rightarrow>
   (int \<times> int) list \<Rightarrow> (int \<times> int) list option" where
  "bresenham s x1 y1 dx dy sx sy x0 y0 err neighborTiles =
     (let neighborTiles' =
            (if inBounds s (of_int x0) (of_int y0) then neighborTiles @ [(x0, y0)]
             else neighborTiles)
      in if x0 = x1 \<and> y0 = y1 then Some neighborTiles'
         else
           let e2 = 2 * err;
               stepX = (e2 > - dy);
               stepY = (e2 < dx);
               errX = (if stepX then err - dy else err);
               x0' = (if stepX then x0 + sx else x0);
               errY = (if stepY then errX + dx else errX);
               y0' = (if stepY then y0 + sy else y0)
           in bresenham s x1 y1 dx dy sx sy x0' y0' errY neighborTiles')"

declare bresenham.simps [code]

definition lineTiles ::
  "SpatialGrid \<Rightarrow> real \<Rightarrow> real \<Rightarrow> real \<Rightarrow> real \<Rightarrow> (int \<times> int) list option" where
  "lineTiles s fromX fromY toX toY =
     (let x0 = \<lfloor>fl (fromX / tileSize s)\<rfloor>;
          y0 = \<lfloor>fl (fromY / tileSize s)\<rfloor>;
          x1 = \<lfloor>fl (toX / tileSize s)\<rfloor>;
          y1 = \<lfloor>fl (toY / tileSize s)\<rfloor>;
          dx = \<bar>x1 - x0\<bar>;
          dy = \<bar>y1 - y0\<bar>;
          sx = (if x0 < x1 then 1 else - 1);
          sy = (if y0 < y1 then 1 else - 1);
          err = dx - dy
      in bresenham s x1 y1 dx dy sx sy x0 y0 err [])"

text \<open>The expansion by \<open>tileExpansion\<close>; \<open>expandedTiles\<close> is a list for the same reason.\<close>

definition expandTiles :: "SpatialGrid \<Rightarrow> (int \<times> int) list \<Rightarrow> int \<Rightarrow> (int \<times> int) list" where
  "expandTiles s neighborTiles tileExpansion =
     concat (map (\<lambda>tile.
       concat (map (\<lambda>offsetX.
         concat (map (\<lambda>offsetY.
           let neighborX = fst tile + offsetX; neighborY = snd tile + offsetY in
           if inBounds s (of_int neighborX) (of_int neighborY)
           then [(neighborX, neighborY)] else [])
           [- tileExpansion..tileExpansion]))
         [- tileExpansion..tileExpansion]))
       neighborTiles)"

definition tileExpansion :: "SpatialGrid \<Rightarrow> real \<Rightarrow> int" where
  "tileExpansion s w = \<lceil>fl (w / fl (2 * tileSize s))\<rceil>"

text \<open>
  The exact test of the line query; \<open>** 2\<close> is the rounded product. When
  \<open>lineLengthSquared\<close> is \<open>0\<close> the quotient is \<open>NaN\<close> for a zero numerator, and then the
  distance is \<open>NaN\<close>, every comparison with it is false and no object passes; for a positive
  numerator it is \<open>Infinity\<close>, which \<open>Math.min\<close> clamps to 1, and for a negative numerator
  \<open>-Infinity\<close>, which \<open>Math.max\<close> clamps to 0.
\<close>

definition lineHit ::
  "SpatialGridObject \<Rightarrow> real \<Rightarrow> real \<Rightarrow> real \<Rightarrow> real \<Rightarrow> real \<Rightarrow> bool" where
  "lineHit obj fromX fromY toX toY w =
     (let lineLengthSquared =
            fl (fl (fl (toX - fromX) * fl (toX - fromX)) + fl (fl (toY - fromY) * fl (toY - fromY)));
          objRadius = or_else (obj_radius obj) 0;
          objX = obj_x obj;
          objY = obj_y obj;
          numerator =
            fl (fl (fl (objX - fromX) * fl (toX - fromX)) + fl (fl (objY - fromY) * fl (toY - fromY)))
      in if lineLengthSquared = 0 \<and> numerator = 0 then False
         else
           let t = (if lineLengthSquared = 0 then (if 0 < numerator then 1 else 0)
                    else max 0 (min 1 (fl (numerator / lineLengthSquared))));
               closestX = fl (fromX + fl (t * fl (toX - fromX)));
               closestY = fl (fromY + fl (t * fl (toY - fromY)));
               dx = fl (objX - closestX);
               dy = fl (objY - closestY);
               distanceSquared = fl (fl (dx * dx) + fl (dy * dy));
               effectiveRadius = fl (objRadius + fl (w / 2))
           in distanceSquared \<le> fl (effectiveRadius * effectiveRadius))"

definition getObjectsIntersectingLine ::
  "heap \<Rightarrow> SpatialGrid \<Rightarrow> real \<Rightarrow> real \<Rightarrow> real \<Rightarrow> real \<Rightarrow> real \<Rightarrow> (error + ref list) option" where
  "getObjectsIntersectingLine h s fromX fromY toX toY w =
     (case lineTiles s fromX fromY toX toY of
        None \<Rightarrow> None
      | Some neighborTiles \<Rightarrow>
          Some (case forEach (expandTiles s neighborTiles (tileExpansion s w))
                       (\<lambda>tile. visit (grid s) (tileIndex s (of_int (fst tile)) (of_int (snd tile))))
                       []
                of Inl e \<Rightarrow> Inl e
                 | Inr candidates \<Rightarrow>
                     Inr (filter (\<lambda>obj. lineHit (h obj) fromX fromY toX toY w) candidates)))"

subsection \<open>Notions used to state the properties\<close>

text \<open>
  The tile range of an object, as \<open>update\<close> resolves it, contains the tile \<open>(tx, ty)\<close>.
\<close>

definition covers :: "SpatialGrid \<Rightarrow> SpatialGridObject \<Rightarrow> int \<Rightarrow> int \<Rightarrow> bool" where
  "covers s obj tx ty \<longleftrightarrow>
     startX s obj \<le> tx \<and> tx \<le> endX s obj \<and> startY s obj \<le> ty \<and> ty \<le> endY s obj"

text \<open>
  The closed form of the table that \<open>update\<close> builds: the in-bounds tiles of an object's
  range in loop order, the bucket number of a tile, and the table in which bucket \<open>j\<close>
  holds, in the order of the object list, the objects with a tile of number \<open>j\<close>.
\<close>

definition objTiles :: "SpatialGrid \<Rightarrow> SpatialGridObject \<Rightarrow> (int \<times> int) list" where
  "objTiles s obj =
     filter (\<lambda>p. inBounds s (of_int (fst p)) (of_int (snd p)))
       (List.product [startX s obj..endX s obj] [startY s obj..endY s obj])"

definition tileNat :: "SpatialGrid \<Rightarrow> int \<times> int \<Rightarrow> nat" where
  "tileNat s p = nat (snd p * xTiles s + fst p)"

definition registered :: "SpatialGrid \<Rightarrow> SpatialGridObject \<Rightarrow> nat \<Rightarrow> bool" where
  "registered s obj j \<longleftrightarrow> (\<exists>p\<in>set (objTiles s obj). tileNat s p = j)"

definition buckets :: "heap \<Rightarrow> SpatialGrid \<Rightarrow> ref list list" where
  "buckets h s =
     map (\<lambda>j. filter (\<lambda>obj. registered s (h obj) j) (objects s))
       [0..<nat (xTiles s * yTiles s)]"

text \<open>The objects a query returns; none when it throws or does not return.\<close>

definition returned :: "error + ref list \<Rightarrow> ref set" where
  "returned q = (case q of Inl e \<Rightarrow> {} | Inr res \<Rightarrow> set res)"

definition returned_line :: "(error + ref list) option \<Rightarrow> ref set" where
  "returned_line q = (case q of None \<Rightarrow> {} | Some r \<Rightarrow> returned r)"

text \<open>The objects held by some bucket of a table.\<close>

definition bucketed :: "ref list list \<Rightarrow> ref set" where
  "bucketed g = (\<Union>b\<in>set g. set b)"

subsection \<open>The rules of the specification\<close>

text \<open>
  The rules that the claims state in words, written from these words and not from the code,
  in double arithmetic. The extent of an object: an explicit edge where present, otherwise
  centre \<open>\<plusminus>\<close> radius, the radius being 0 when absent. The tile of a coordinate:
  \<open>floor(coord / tileSize)\<close>. A tile is spanned by an object when it lies in the
  floor-divided tile range of the object's extent, and it is a tile of the grid when
  \<open>0 \<le> tx < xTiles\<close> and \<open>0 \<le> ty < yTiles\<close>.
\<close>

definition spec_radius :: "SpatialGridObject \<Rightarrow> real" where
  "spec_radius obj = (case obj_radius obj of None \<Rightarrow> 0 | Some r \<Rightarrow> r)"

definition spec_left :: "SpatialGridObject \<Rightarrow> real" where
  "spec_left obj = (case obj_left obj of Some e \<Rightarrow> e | None \<Rightarrow> fl (obj_x obj - spec_radius obj))"

definition spec_right :: "SpatialGridObject \<Rightarrow> real" where
  "spec_right obj = (case obj_right obj of Some e \<Rightarrow> e | None \<Rightarrow> fl (obj_x obj + spec_radius obj))"

definition spec_top :: "SpatialGridObject \<Rightarrow> real" where
  "spec_top obj = (case obj_top obj of Some e \<Rightarrow> e | None \<Rightarrow> fl (obj_y obj - spec_radius obj))"

definition spec_bottom :: "SpatialGridObject \<Rightarrow> real" where
  "spec_bottom obj = (case obj_bottom obj of Some e \<Rightarrow> e | None \<Rightarrow> fl (obj_y obj + spec_radius obj))"

definition spec_tile :: "SpatialGrid \<Rightarrow> real \<Rightarrow> int" where
  "spec_tile s c = \<lfloor>fl (c / tileSize s)\<rfloor>"

definition spec_spans :: "SpatialGrid \<Rightarrow> SpatialGridObject \<Rightarrow> int \<Rightarrow> int \<Rightarrow> bool" where
  "spec_spans s obj tx ty \<longleftrightarrow>
     spec_tile s (spec_left obj) \<le> tx \<and> tx \<le> spec_tile s (spec_right obj) \<and>
     spec_tile s (spec_top obj) \<le> ty \<and> ty \<le> spec_tile s (spec_bottom obj)"

definition spec_in_grid :: "SpatialGrid \<Rightarrow> int \<Rightarrow> int \<Rightarrow> bool" where
  "spec_in_grid s tx ty \<longleftrightarrow> 0 \<le> tx \<and> tx < xTiles s \<and> 0 \<le> ty \<and> ty < yTiles s"

text \<open>
  The distance inequality of the circle query:
  \<open>(objX - x)\<^sup>2 + (objY - y)\<^sup>2 \<le> (objRadius + r)\<^sup>2\<close>.
\<close>

definition spec_circle_test :: "SpatialGridObject \<Rightarrow> real \<Rightarrow> real \<Rightarrow> real \<Rightarrow> bool" where
  "spec_circle_test obj x y r \<longleftrightarrow>
     fl (fl (fl (obj_x obj - x) * fl (obj_x obj - x)) + fl (fl (obj_y obj - y) * fl (obj_y obj - y)))
       \<le> fl (fl (spec_radius obj + r) * fl (spec_radius obj + r))"

text \<open>
  The overlap test of the rectangle query on the edges of the object, a missing edge being
  the centre coordinate: \<open>objRight \<ge> x\<close>, \<open>objLeft \<le> x + width\<close>, \<open>objBottom \<ge> y\<close>,
  \<open>objTop \<le> y + height\<close>.
\<close>

definition spec_rect_test ::
  "SpatialGridObject \<Rightarrow> real \<Rightarrow> real \<Rightarrow> real \<Rightarrow> real \<Rightarrow> bool" where
  "spec_rect_test obj x y w ht \<longleftrightarrow>
     (case obj_right obj of Some e \<Rightarrow> e | None \<Rightarrow> obj_x obj) \<ge> x \<and>
     (case obj_left obj of Some e \<Rightarrow> e | None \<Rightarrow> obj_x obj) \<le> fl (x + w) \<and>
     (case obj_bottom obj of Some e \<Rightarrow> e | None \<Rightarrow> obj_y obj) \<ge> y \<and>
     (case obj_top obj of Some e \<Rightarrow> e | None \<Rightarrow> obj_y obj) \<le> fl (y + ht)"

text \<open>
  The test of the line query for a segment of non-zero length: with the clamped projection
  parameter \<open>t = clamp((obj - from) \<cdot> (to - from) / |to - from|\<^sup>2, 0, 1)\<close> and the closest
  point \<open>from + t (to - from)\<close>, the squared distance from the closest point to the centre
  is at most \<open>(objRadius + width / 2)\<^sup>2\<close>.
\<close>

definition spec_length_squared :: "real \<Rightarrow> real \<Rightarrow> real \<Rightarrow> real \<Rightarrow> real" where
  "spec_length_squared fromX fromY toX toY =
     fl (fl (fl (toX - fromX) * fl (toX - fromX)) + fl (fl (toY - fromY) * fl (toY - fromY)))"

definition spec_projection :: "SpatialGridObject \<Rightarrow> real \<Rightarrow> real \<Rightarrow> real \<Rightarrow> real \<Rightarrow> real" where
  "spec_projection obj fromX fromY toX toY =
     max 0 (min 1
       (fl (fl (fl (fl (obj_x obj - fromX) * fl (toX - fromX)) +
                fl (fl (obj_y obj - fromY) * fl (toY - fromY)))
            / spec_length_squared fromX fromY toX toY)))"

definition spec_distance_squared ::
  "SpatialGridObject \<Rightarrow> real \<Rightarrow> real \<Rightarrow> real \<Rightarrow> real \<Rightarrow> real" where
  "spec_distance_squared obj fromX fromY toX toY =
     (let t = spec_projection obj fromX fromY toX toY;
          cx = fl (fromX + fl (t * fl (toX - fromX)));
          cy = fl (fromY + fl (t * fl (toY - fromY)))
      in fl (fl (fl (obj_x obj - cx) * fl (obj_x obj - cx)) +
             fl (fl (obj_y obj - cy) * fl (obj_y obj - cy))))"

definition spec_line_test ::
  "SpatialGridObject \<Rightarrow> real \<Rightarrow> real \<Rightarrow> real \<Rightarrow> real \<Rightarrow> real \<Rightarrow> bool" where
  "spec_line_test obj fromX fromY toX toY w \<longleftrightarrow>
     spec_distance_squared obj fromX fromY toX toY
       \<le> fl (fl (spec_radius obj + fl (w / 2)) * fl (spec_radius obj + fl (w / 2)))"

text \<open>
  The radius is absent or non-negative, and the extent rectangle (explicit edge where
  present, otherwise centre \<open>\<plusminus>\<close> radius) contains the square centre \<open>\<plusminus>\<close> radius. An
  object without explicit edges always has such an extent.
\<close>

definition encloses_circle :: "SpatialGridObject \<Rightarrow> bool" where
  "encloses_circle obj \<longleftrightarrow>
     (let R = nullish (obj_radius obj) 0 in
      0 \<le> R \<and>
      nullish (obj_left obj) (obj_x obj - R) \<le> obj_x obj - R \<and>
      obj_x obj + R \<le> nullish (obj_right obj) (obj_x obj + R) \<and>
      nullish (obj_top obj) (obj_y obj - R) \<le> obj_y obj - R \<and>
      obj_y obj + R \<le> nullish (obj_bottom obj) (obj_y obj + R))"

subsection \<open>The inputs on which the model is the program\<close>

text \<open>
  A tile number or loop bound that a double counter reaches by steps of one: below
  \<open>2 ^ 53\<close> in magnitude.
\<close>

definition tile_bounded :: "int \<Rightarrow> bool" where
  "tile_bounded k \<longleftrightarrow> \<bar>k\<bar> < 2 ^ 53"

definition valid_grid :: "SpatialGrid \<Rightarrow> bool" where
  "valid_grid s \<longleftrightarrow>
     number (width s) \<and> number (height s) \<and> number (tileSize s) \<and> 0 < tileSize s"

definition valid_object :: "SpatialGrid \<Rightarrow> SpatialGridObject \<Rightarrow> bool" where
  "valid_object s obj \<longleftrightarrow>
     number (obj_x obj) \<and> number (obj_y obj) \<and> number_opt (obj_radius obj) \<and>
     number_opt (obj_left obj) \<and> number_opt (obj_right obj) \<and>
     number_opt (obj_top obj) \<and> number_opt (obj_bottom obj) \<and>
     tile_bounded (startX s obj) \<and> tile_bounded (endX s obj) \<and>
     tile_bounded (startY s obj) \<and> tile_bounded (endY s obj)"

text \<open>
  A store on which \<open>update\<close> can run: the bucket table can be allocated, and the two loops
  over the tile range of each live object end.
\<close>

definition valid_store :: "heap \<Rightarrow> SpatialGrid \<Rightarrow> bool" where
  "valid_store h s \<longleftrightarrow>
     valid_grid s \<and> xTiles s * yTiles s < 2 ^ 32 \<and>
     (\<forall>obj\<in>set (objects s). valid_object s (h obj))"

definition valid_point :: "SpatialGrid \<Rightarrow> real \<Rightarrow> real \<Rightarrow> bool" where
  "valid_point s x y \<longleftrightarrow>
     number x \<and> number y \<and>
     tile_bounded \<lfloor>fl (x / tileSize s)\<rfloor> \<and> tile_bounded \<lfloor>fl (y / tileSize s)\<rfloor>"

definition valid_neighbors :: "SpatialGrid \<Rightarrow> real \<Rightarrow> real \<Rightarrow> real \<Rightarrow> bool" where
  "valid_neighbors s x y n \<longleftrightarrow> valid_point s x y \<and> number n \<and> n < 2 ^ 53"

definition valid_circle :: "SpatialGrid \<Rightarrow> real \<Rightarrow> real \<Rightarrow> real \<Rightarrow> bool" where
  "valid_circle s x y r \<longleftrightarrow>
     valid_point s x y \<and> number r \<and> \<lceil>fl (r / tileSize s)\<rceil> < 2 ^ 53"

definition valid_rect :: "SpatialGrid \<Rightarrow> real \<Rightarrow> real \<Rightarrow> real \<Rightarrow> real \<Rightarrow> bool" where
  "valid_rect s x y w ht \<longleftrightarrow>
     valid_point s x y \<and> number w \<and> number ht \<and>
     tile_bounded \<lfloor>fl (fl (x + w) / tileSize s)\<rfloor> \<and>
     tile_bounded \<lfloor>fl (fl (y + ht) / tileSize s)\<rfloor>"

text \<open>
  The rasterisation adds and subtracts the tile distances \<open>dx\<close> and \<open>dy\<close> of the end points
  and doubles the error term; with end tiles below \<open>2 ^ 51\<close> in magnitude all of these
  stay below \<open>2 ^ 53\<close>. The expansion adds an offset to the number of a tile of the grid.
\<close>

definition valid_line :: "SpatialGrid \<Rightarrow> real \<Rightarrow> real \<Rightarrow> real \<Rightarrow> real \<Rightarrow> real \<Rightarrow> bool" where
  "valid_line s fromX fromY toX toY w \<longleftrightarrow>
     number fromX \<and> number fromY \<and> number toX \<and> number toY \<and> number w \<and>
     \<bar>\<lfloor>fl (fromX / tileSize s)\<rfloor>\<bar> < 2 ^ 51 \<and> \<bar>\<lfloor>fl (fromY / tileSize s)\<rfloor>\<bar> < 2 ^ 51 \<and>
     \<bar>\<lfloor>fl (toX / tileSize s)\<rfloor>\<bar> < 2 ^ 51 \<and> \<bar>\<lfloor>fl (toY / tileSize s)\<rfloor>\<bar> < 2 ^ 51 \<and>
     tileExpansion s w < 2 ^ 52"

subsection \<open>Concrete stores and objects\<close>

text \<open>
  One object with the explicit edges \<open>[5, 15] \<times> [5, 15]\<close>, added to a store of
  \<open>2 \<times> 2\<close> tiles of size 10 that has not been updated.
\<close>

definition example_object :: SpatialGridObject where
  "example_object = \<lparr>obj_x = 10, obj_y = 10, obj_radius = None, obj_left = Some 5,
     obj_right = Some 15, obj_top = Some 5, obj_bottom = Some 15\<rparr>"

definition example_heap :: heap where
  "example_heap = (\<lambda>_. example_object)"

definition example_store :: SpatialGrid where
  "example_store = add (new_SpatialGrid 20 20 10) [0]"

text \<open>A store whose tile size exceeds both dimensions.\<close>

definition tiny_store :: SpatialGrid where
  "tiny_store = add (new_SpatialGrid 5 5 10) [0]"

text \<open>A point object at \<open>(25, 5)\<close>, outside a \<open>20 \<times> 20\<close> grid.\<close>

definition outside_object :: SpatialGridObject where
  "outside_object = \<lparr>obj_x = 25, obj_y = 5, obj_radius = None, obj_left = None,
     obj_right = None, obj_top = None, obj_bottom = None\<rparr>"

definition outside_heap :: heap where
  "outside_heap = (\<lambda>_. outside_object)"

text \<open>A circle of radius 5 around \<open>(5, 5)\<close>.\<close>

definition circle_object :: SpatialGridObject where
  "circle_object = \<lparr>obj_x = 5, obj_y = 5, obj_radius = Some 5, obj_left = None,
     obj_right = None, obj_top = None, obj_bottom = None\<rparr>"

definition circle_heap :: heap where
  "circle_heap = (\<lambda>_. circle_object)"

text \<open>A point object at \<open>(5, 8)\<close>, at distance 3 from the segment \<open>(0, 5)\<close>--\<open>(15, 5)\<close>.\<close>

definition point_object :: SpatialGridObject where
  "point_object = \<lparr>obj_x = 5, obj_y = 8, obj_radius = None, obj_left = None,
     obj_right = None, obj_top = None, obj_bottom = None\<rparr>"

definition point_heap :: heap where
  "point_heap = (\<lambda>_. point_object)"

text \<open>
  Two objects: the point \<open>(5, 8)\<close> under the handle 0 and the point \<open>(15, 15)\<close> under every
  other handle; and the store of \<open>2 \<times> 2\<close> tiles that holds the handle 0 and has been
  updated.
\<close>

definition far_object :: SpatialGridObject where
  "far_object = \<lparr>obj_x = 15, obj_y = 15, obj_radius = None, obj_left = None,
     obj_right = None, obj_top = None, obj_bottom = None\<rparr>"

definition pair_heap :: heap where
  "pair_heap = (\<lambda>r. if r = 0 then point_object else far_object)"

definition updated_store :: SpatialGrid where
  "updated_store = example_store\<lparr>grid := [[0], [], [], []]\<rparr>"

section \<open>Properties\<close>

subsection \<open>Rounding to the nearest double\<close>

text \<open>
  \<open>fl\<close> is odd, monotone and the identity on the integers below \<open>2 ^ 53\<close> in magnitude
  and on their halves; two distinct positive doubles differ by at least the unit in the last
  place of the smaller one, so the rounded quotient of two doubles \<open>0 \<le> x < y\<close> is below 1.
\<close>

lemma rne_bounds: "\<lfloor>t\<rfloor> \<le> rne t" "rne t \<le> \<lfloor>t\<rfloor> + 1"
  by (simp_all add: rne_def Let_def)

lemma rne_of_int [simp]: "rne (of_int k) = k"
  by (simp add: rne_def)

lemma rne_mono: "s \<le> t \<Longrightarrow> rne s \<le> rne t"
proof -
  assume st: "s \<le> t"
  then have f: "\<lfloor>s\<rfloor> \<le> \<lfloor>t\<rfloor>" by (rule floor_mono)
  show ?thesis
  proof (cases "\<lfloor>s\<rfloor> = \<lfloor>t\<rfloor>")
    case True
    with st show ?thesis by (auto simp: rne_def Let_def)
  next
    case False
    with f have "\<lfloor>s\<rfloor> + 1 \<le> \<lfloor>t\<rfloor>" by simp
    with rne_bounds(2)[of s] rne_bounds(1)[of t] show ?thesis by linarith
  qed
qed

lemma rne_ge: "of_int n \<le> t \<Longrightarrow> n \<le> rne t"
  using rne_mono[of "of_int n" t] by simp

lemma rne_le: "t \<le> of_int n \<Longrightarrow> rne t \<le> n"
  using rne_mono[of t "of_int n"] by simp

lemma rne_ge_half: "n \<le> rne t \<Longrightarrow> of_int n - 1 / 2 \<le> t"
proof (rule ccontr)
  assume n: "n \<le> rne t" and "\<not> of_int n - 1 / 2 \<le> t"
  then have t: "t < of_int n - 1 / 2" by simp
  then have "t < of_int n" by linarith
  then have fl: "\<lfloor>t\<rfloor> \<le> n - 1" by (simp add: floor_less_iff)
  show False
  proof (cases "\<lfloor>t\<rfloor> = n - 1")
    case True
    then have "t - of_int \<lfloor>t\<rfloor> < 1 / 2" using t by simp
    then have "rne t = \<lfloor>t\<rfloor>" by (simp add: rne_def Let_def)
    with True n show False by simp
  next
    case False
    with fl have "\<lfloor>t\<rfloor> + 1 \<le> n - 1" by simp
    with rne_bounds(2)[of t] n show False by linarith
  qed
qed

lemma fl_zero [simp]: "fl 0 = 0"
  by (simp add: fl_def)

lemma fl_minus: "fl (- x) = - fl x"
  by (simp add: fl_def ulp_exp_def sgn_minus)

lemma fl_pos: "0 < x \<Longrightarrow> fl x = 2 powr of_int (ulp_exp x) * of_int (rne (x / 2 powr of_int (ulp_exp x)))"
  by (simp add: fl_def)

lemma fl_nonneg: "0 \<le> x \<Longrightarrow> 0 \<le> fl x"
proof (cases "x = 0")
  case True
  then show ?thesis by simp
next
  case False
  assume "0 \<le> x"
  with False have x: "0 < x" by simp
  have "0 \<le> x / 2 powr of_int (ulp_exp x)" using x by simp
  then have "0 \<le> rne (x / 2 powr of_int (ulp_exp x))" using rne_ge[of 0] by simp
  then show ?thesis by (simp add: fl_pos[OF x])
qed

lemma ulp_exp_mono: "0 < x \<Longrightarrow> x \<le> y \<Longrightarrow> ulp_exp x \<le> ulp_exp y"
proof -
  assume "0 < x" "x \<le> y"
  then have "log 2 \<bar>x\<bar> \<le> log 2 \<bar>y\<bar>" by simp
  then have "\<lfloor>log 2 \<bar>x\<bar>\<rfloor> \<le> \<lfloor>log 2 \<bar>y\<bar>\<rfloor>" by (rule floor_mono)
  then show ?thesis by (simp add: ulp_exp_def)
qed

lemma two_powr_add: "(2::real) powr of_int (a + b) = 2 powr of_int a * 2 powr of_int b"
  by (simp add: powr_add)

lemma two_powr_nat: "(2::real) powr of_int (int n) = 2 ^ n"
  by (simp add: powr_realpow)

lemma two_powr_53: "(2::real) powr of_int (a + 53) = 2 powr of_int a * 2 ^ 53"
  using two_powr_add[of a 53] two_powr_nat[of 53] by simp

lemma two_powr_52: "(2::real) powr of_int (a + 52) = 2 powr of_int a * 2 ^ 52"
  using two_powr_add[of a 52] two_powr_nat[of 52] by simp

lemma scaled_upper:
  assumes "0 < x"
  shows "x / 2 powr of_int (ulp_exp x) < 2 ^ 53"
proof -
  define e where "e = \<lfloor>log 2 \<bar>x\<bar>\<rfloor>"
  have "log 2 \<bar>x\<bar> < of_int e + 1" unfolding e_def by linarith
  then have "log 2 x < of_int (e + 1)" using assms by simp
  then have "x < 2 powr of_int (e + 1)" using assms by (simp add: log_less_iff)
  also have "\<dots> \<le> 2 powr of_int (ulp_exp x + 53)"
    by (intro powr_mono) (simp_all add: ulp_exp_def e_def)
  also have "\<dots> = 2 powr of_int (ulp_exp x) * 2 ^ 53" by (rule two_powr_53)
  finally show ?thesis by (simp add: pos_divide_less_eq mult.commute)
qed

lemma scaled_lower:
  assumes "0 < x" "- 1022 \<le> \<lfloor>log 2 \<bar>x\<bar>\<rfloor>"
  shows "2 ^ 52 \<le> x / 2 powr of_int (ulp_exp x)"
proof -
  define e where "e = \<lfloor>log 2 \<bar>x\<bar>\<rfloor>"
  have u: "e = ulp_exp x + 52" using assms(2) by (simp add: ulp_exp_def e_def)
  have "of_int e \<le> log 2 \<bar>x\<bar>" unfolding e_def by simp
  then have "of_int e \<le> log 2 x" using assms by simp
  then have "(2::real) powr of_int e \<le> x" using assms by (simp add: le_log_iff)
  moreover have "(2::real) powr of_int e = 2 powr of_int (ulp_exp x) * 2 ^ 52"
    unfolding u by (rule two_powr_52)
  ultimately show ?thesis by (simp add: pos_le_divide_eq mult.commute)
qed

lemma fl_upper:
  assumes "0 < x"
  shows "fl x \<le> 2 powr of_int (ulp_exp x + 53)"
proof -
  define u :: real where "u = 2 powr of_int (ulp_exp x)"
  have u: "0 < u" by (simp add: u_def)
  have "x / u \<le> of_int (2 ^ 53)" using scaled_upper[OF assms] by (simp add: u_def)
  then have "rne (x / u) \<le> 2 ^ 53" by (rule rne_le)
  then have "(of_int (rne (x / u)) :: real) \<le> of_int (2 ^ 53)" by (simp only: of_int_le_iff)
  then have "u * of_int (rne (x / u)) \<le> u * 2 ^ 53" using u by simp
  then show ?thesis unfolding fl_pos[OF assms] two_powr_53 u_def .
qed

lemma fl_lower:
  assumes "0 < x" "- 1022 \<le> \<lfloor>log 2 \<bar>x\<bar>\<rfloor>"
  shows "2 powr of_int (ulp_exp x + 52) \<le> fl x"
proof -
  define u :: real where "u = 2 powr of_int (ulp_exp x)"
  have u: "0 < u" by (simp add: u_def)
  have "of_int (2 ^ 52) \<le> x / u" using scaled_lower[OF assms] by (simp add: u_def)
  then have "2 ^ 52 \<le> rne (x / u)" by (rule rne_ge)
  then have "(of_int (2 ^ 52) :: real) \<le> of_int (rne (x / u))" by (simp only: of_int_le_iff)
  then have "u * 2 ^ 52 \<le> u * of_int (rne (x / u))" using u by simp
  then show ?thesis unfolding fl_pos[OF assms(1)] two_powr_52 u_def .
qed

lemma fl_mono_pos:
  assumes "0 < x" "x \<le> y"
  shows "fl x \<le> fl y"
proof -
  have y: "0 < y" using assms by simp
  have le: "ulp_exp x \<le> ulp_exp y" using assms by (rule ulp_exp_mono)
  show ?thesis
  proof (cases "ulp_exp x = ulp_exp y")
    case True
    define u :: real where "u = 2 powr of_int (ulp_exp y)"
    have u: "0 < u" by (simp add: u_def)
    have "x / u \<le> y / u" using assms u by (simp add: divide_right_mono)
    then have "rne (x / u) \<le> rne (y / u)" by (rule rne_mono)
    then have "u * of_int (rne (x / u)) \<le> u * of_int (rne (y / u))" using u by simp
    then show ?thesis
      unfolding fl_pos[OF assms(1)] fl_pos[OF y] True u_def .
  next
    case False
    with le have lt: "ulp_exp x + 1 \<le> ulp_exp y" by simp
    then have n: "- 1022 \<le> \<lfloor>log 2 \<bar>y\<bar>\<rfloor>"
      unfolding ulp_exp_def by linarith
    have "fl x \<le> 2 powr of_int (ulp_exp x + 53)" by (rule fl_upper[OF assms(1)])
    also have "\<dots> \<le> 2 powr of_int (ulp_exp y + 52)"
      using lt by (intro powr_mono) simp_all
    also have "\<dots> \<le> fl y" by (rule fl_lower[OF y n])
    finally show ?thesis .
  qed
qed

lemma fl_mono: "x \<le> y \<Longrightarrow> fl x \<le> fl y"
proof -
  assume xy: "x \<le> y"
  consider "0 < x" | "x \<le> 0" "0 \<le> y" | "y < 0" by linarith
  then show ?thesis
  proof cases
    case 1
    then show ?thesis using xy by (rule fl_mono_pos)
  next
    case 2
    have "fl x = - fl (- x)" by (simp add: fl_minus)
    moreover have "0 \<le> fl (- x)" using 2(1) by (intro fl_nonneg) simp
    moreover have "0 \<le> fl y" using 2(2) by (rule fl_nonneg)
    ultimately show ?thesis by linarith
  next
    case 3
    then have "fl (- y) \<le> fl (- x)" using xy by (intro fl_mono_pos) simp_all
    then show ?thesis by (simp add: fl_minus)
  qed
qed

lemma fl_exact_pos:
  assumes m: "0 < m" "m < 2 ^ 53" and j: "- 1074 \<le> j"
  shows "fl (of_int m * 2 powr of_int j) = of_int m * 2 powr of_int j"
proof -
  define x :: real where "x = of_int m * 2 powr of_int j"
  have x: "0 < x" using m by (simp add: x_def)
  define E where "E = ulp_exp x"
  have "of_int m < (2::real) ^ 53" using m(2) by (metis of_int_less_iff of_int_numeral of_int_power)
  then have "x < 2 ^ 53 * 2 powr of_int j" by (simp add: x_def)
  also have "\<dots> = 2 powr of_int (j + 53)" by (simp only: two_powr_53 mult.commute)
  finally have "log 2 x < of_int (j + 53)" using x by (simp add: log_less_iff)
  then have "\<lfloor>log 2 \<bar>x\<bar>\<rfloor> < j + 53" using x by (simp add: floor_less_iff)
  then have Ej: "E \<le> j" using j by (simp add: E_def ulp_exp_def)
  define k where "k = nat (j - E)"
  have jk: "j = E + int k" using Ej by (simp add: k_def)
  have "2 powr of_int j = 2 powr of_int E * (2::real) ^ k"
    unfolding jk two_powr_add two_powr_nat ..
  then have "x / 2 powr of_int E = of_int (m * 2 ^ k)" by (simp add: x_def)
  then have "rne (x / 2 powr of_int E) = m * 2 ^ k" by (simp only: rne_of_int)
  then have "fl x = 2 powr of_int E * of_int (m * 2 ^ k)"
    by (simp add: fl_pos[OF x] E_def)
  also have "\<dots> = x" unfolding x_def jk two_powr_add two_powr_nat by simp
  finally show ?thesis by (simp add: x_def)
qed

lemma fl_exact:
  assumes "\<bar>m\<bar> < 2 ^ 53" "- 1074 \<le> j"
  shows "fl (of_int m * 2 powr of_int j) = of_int m * 2 powr of_int j"
proof -
  consider "0 < m" | "m = 0" | "m < 0" by linarith
  then show ?thesis
  proof cases
    case 1
    then show ?thesis using assms by (intro fl_exact_pos) simp_all
  next
    case 2
    then show ?thesis by simp
  next
    case 3
    then have "fl (of_int (- m) * 2 powr of_int j) = of_int (- m) * 2 powr of_int j"
      using assms by (intro fl_exact_pos) simp_all
    then have "fl (- (of_int m * 2 powr of_int j)) = - (of_int m * 2 powr of_int j)" by simp
    then show ?thesis by (simp only: fl_minus neg_equal_iff_equal)
  qed
qed

lemma fl_of_int: "\<bar>k\<bar> < 2 ^ 53 \<Longrightarrow> fl (of_int k) = of_int k"
  using fl_exact[of k 0] by simp

lemma fl_half: "\<bar>k\<bar> < 2 ^ 53 \<Longrightarrow> fl (of_int k / 2) = of_int k / 2"
  using fl_exact[of k "- 1"] by (simp add: powr_minus)

lemma double_multiple:
  assumes "0 < x" "fl x = x"
  shows "\<exists>M::int. x = 2 powr of_int (ulp_exp x) * of_int M"
  using fl_pos[OF assms(1)] assms(2) by metis

lemma double_gap:
  assumes "0 < x" "x < y" "fl x = x" "fl y = y"
  shows "2 powr of_int (ulp_exp x) \<le> y - x"
proof -
  have y: "0 < y" using assms by simp
  define u :: real where "u = 2 powr of_int (ulp_exp x)"
  have u: "0 < u" by (simp add: u_def)
  from double_multiple[OF assms(1,3)] obtain M :: int where M: "x = u * of_int M"
    by (auto simp: u_def)
  from double_multiple[OF y assms(4)] obtain N :: int where
    N: "y = 2 powr of_int (ulp_exp y) * of_int N" by auto
  have le: "ulp_exp x \<le> ulp_exp y" using assms(1,2) by (intro ulp_exp_mono) simp_all
  define k where "k = nat (ulp_exp y - ulp_exp x)"
  have "ulp_exp y = ulp_exp x + int k" using le by (simp add: k_def)
  then have "2 powr of_int (ulp_exp y) = u * (2::real) ^ k"
    by (simp only: two_powr_add two_powr_nat u_def)
  with N have N': "y = u * of_int (N * 2 ^ k)" by simp
  have "u * of_int M < u * of_int (N * 2 ^ k)" using assms(2) M N' by simp
  then have "(of_int M :: real) < of_int (N * 2 ^ k)" using u by (simp only: mult_less_cancel_left_pos)
  then have "M < N * 2 ^ k" by (simp only: of_int_less_iff)
  then have "M + 1 \<le> N * 2 ^ k" by simp
  then have "(of_int (M + 1) :: real) \<le> of_int (N * 2 ^ k)" by (simp only: of_int_le_iff)
  then have "u * of_int (M + 1) \<le> u * of_int (N * 2 ^ k)" using u by (simp only: mult_le_cancel_left_pos)
  then have "u \<le> u * of_int (N * 2 ^ k) - u * of_int M" by (simp add: algebra_simps)
  then have "u \<le> y - x" using M N' by simp
  then show ?thesis by (simp only: u_def)
qed

lemma fl_quotient_less_one:
  assumes "0 \<le> x" "x < y" "fl x = x" "fl y = y"
  shows "fl (x / y) < 1"
proof (cases "x = 0")
  case True
  then show ?thesis by simp
next
  case False
  with assms(1) have x: "0 < x" by simp
  have y: "0 < y" using x assms(2) by simp
  define q where "q = x / y"
  have q: "0 < q" "q < 1" using x y assms(2) by (simp_all add: q_def)
  show ?thesis
  proof (rule ccontr)
    assume "\<not> fl (x / y) < 1"
    then have ge: "1 \<le> fl q" by (simp add: q_def)
    define E where "E = ulp_exp q"
    define u :: real where "u = 2 powr of_int E"
    have u: "0 < u" by (simp add: u_def)
    have "log 2 q < 0" using q by simp
    then have "log 2 q < of_int 0" by simp
    then have fq: "\<lfloor>log 2 q\<rfloor> < 0" by (rule floor_less_iff[THEN iffD2])
    have "\<bar>q\<bar> = q" using q by simp
    with fq have "\<lfloor>log 2 \<bar>q\<bar>\<rfloor> \<le> - 1" by linarith
    then have E: "E \<le> - 53" by (simp add: E_def ulp_exp_def)
    have up: "fl q \<le> 2 powr of_int (E + 53)" unfolding E_def by (rule fl_upper[OF q(1)])
    have "E = - 53"
    proof (rule ccontr)
      assume "E \<noteq> - 53"
      with E have "E + 53 \<le> - 1" by simp
      then have "(2::real) powr of_int (E + 53) \<le> 2 powr of_int (- 1)"
        by (intro powr_mono) simp_all
      also have "\<dots> < 1" by (simp add: powr_minus)
      finally show False using up ge by simp
    qed
    define c :: real where "c = 2 ^ 53"
    have c: "0 < c" by (simp add: c_def)
    have p53: "(2::real) powr of_int (int 53) = c" unfolding c_def by (rule two_powr_nat)
    have "u = 2 powr (- of_int (int 53))" unfolding u_def \<open>E = - 53\<close> by simp
    also have "\<dots> = 1 / 2 powr of_int (int 53)" by (rule powr_minus_divide)
    finally have uv: "u = 1 / c" unfolding p53 .
    have "fl q = u * of_int (rne (q / u))" unfolding u_def E_def by (rule fl_pos[OF q(1)])
    with ge have "1 \<le> of_int (rne (q * c)) / c" by (simp add: uv)
    then have "c \<le> of_int (rne (q * c))" using c by (simp add: pos_le_divide_eq)
    then have "(of_int (2 ^ 53) :: real) \<le> of_int (rne (q * c))" by (simp add: c_def)
    then have "2 ^ 53 \<le> rne (q * c)" by (simp only: of_int_le_iff)
    from rne_ge_half[OF this] have "c - 1 / 2 \<le> q * c" by (simp add: c_def)
    then have "c * (1 - q) \<le> 1 / 2" by (simp add: algebra_simps)
    then have qlow: "1 - q \<le> 1 / (2 * c)" using c by (simp add: field_simps)
    have gap: "2 powr of_int (ulp_exp x) \<le> y - x" by (rule double_gap[OF x assms(2,3,4)])
    have "x / 2 powr of_int (ulp_exp x) < c" unfolding c_def by (rule scaled_upper[OF x])
    then have "x < c * 2 powr of_int (ulp_exp x)" by (simp add: pos_divide_less_eq)
    then have ux: "x / c < 2 powr of_int (ulp_exp x)"
      using c by (simp add: pos_divide_less_eq mult.commute)
    have xq: "x = q * y" using y by (simp add: q_def)
    have "y - x = y * (1 - q)" by (simp add: xq algebra_simps)
    also have "\<dots> \<le> y * (1 / (2 * c))" using qlow y by (intro mult_left_mono) simp_all
    finally have yx: "y - x \<le> y / (2 * c)" by simp
    have "1 \<le> c" by (simp add: c_def)
    then have "1 / (2 * c) \<le> 1 / 2" using c by (simp add: field_simps)
    with qlow have "1 / 2 \<le> q" by linarith
    then have "(1 / 2) * y \<le> q * y" using y by (intro mult_right_mono) simp_all
    then have "y / 2 \<le> x" by (simp add: xq)
    then have "(y / 2) / c \<le> x / c" using c by (intro divide_right_mono) simp_all
    then have "y / (2 * c) \<le> x / c" by simp
    with yx ux gap show False by linarith
  qed
qed

lemma ilog2_eq: "0 < x \<Longrightarrow> ilog2 x = \<lfloor>log 2 x\<rfloor>"
proof (induction x rule: ilog2.induct)
  case (1 x)
  show ?case
  proof (cases "x < 1")
    case True
    have "log 2 (2 * x) = 1 + log 2 x" using "1.prems" by (simp add: log_mult)
    then have "\<lfloor>log 2 (2 * x)\<rfloor> = 1 + \<lfloor>log 2 x\<rfloor>" by simp
    moreover have "ilog2 (2 * x) = \<lfloor>log 2 (2 * x)\<rfloor>"
      using "1.IH"(1) "1.prems" True by simp
    moreover have "ilog2 x = ilog2 (2 * x) - 1"
      using "1.prems" True by (subst ilog2.simps) simp
    ultimately show ?thesis by simp
  next
    case False
    show ?thesis
    proof (cases "2 \<le> x")
      case True
      have "log 2 (x / 2) = log 2 x - 1" using "1.prems" by (simp add: log_divide)
      then have "\<lfloor>log 2 (x / 2)\<rfloor> = \<lfloor>log 2 x\<rfloor> - 1" by simp
      moreover have "ilog2 (x / 2) = \<lfloor>log 2 (x / 2)\<rfloor>"
        using "1.IH"(2) "1.prems" False True by simp
      moreover have "ilog2 x = ilog2 (x / 2) + 1"
        using "1.prems" False True by (subst ilog2.simps) simp
      ultimately show ?thesis by simp
    next
      case F2: False
      have "0 \<le> log 2 x" "log 2 x < 1" using False F2 "1.prems" by (simp_all add: log_less_iff)
      then have "\<lfloor>log 2 x\<rfloor> = 0" by (simp add: floor_eq_iff)
      moreover have "ilog2 x = 0" using "1.prems" False F2 by (subst ilog2.simps) simp
      ultimately show ?thesis by simp
    qed
  qed
qed

lemma pow2_eq: "pow2 e = 2 powr of_int e"
proof (cases "0 \<le> e")
  case True
  then have "(2::real) powr of_int e = 2 powr of_int (int (nat e))" by simp
  also have "\<dots> = 2 ^ nat e" by (rule two_powr_nat)
  finally show ?thesis using True by (simp add: pow2_def)
next
  case False
  then have "(2::real) powr of_int e = 2 powr (- of_int (int (nat (- e))))" by simp
  also have "\<dots> = 1 / 2 powr of_int (int (nat (- e)))" by (rule powr_minus_divide)
  also have "\<dots> = 1 / 2 ^ nat (- e)" by (simp only: two_powr_nat)
  finally show ?thesis using False by (simp add: pow2_def)
qed

lemma fl_code [code]:
  "fl x = (if x = 0 then 0
           else let p = pow2 (max (ilog2 \<bar>x\<bar>) (- 1022) - 52); m = p * of_int (rne (\<bar>x\<bar> / p))
                in if 0 < x then m else - m)"
  by (simp add: fl_def ulp_exp_def ilog2_eq pow2_eq Let_def sgn_if)

subsection \<open>Loops, sets and bucket indices\<close>

lemma forEach_append:
  "forEach (xs @ ys) body st = (case forEach xs body st of Inl e \<Rightarrow> Inl e | Inr st' \<Rightarrow> forEach ys body st')"
  by (induction xs arbitrary: st) (auto split: sum.splits)

lemma forEach_cong:
  "(\<And>v st. v \<in> set vs \<Longrightarrow> body v st = body' v st) \<Longrightarrow> forEach vs body st = forEach vs body' st"
  by (induction vs arbitrary: st) (auto split: sum.splits)

lemma forEach_map: "forEach (map k vs) body st = forEach vs (\<lambda>v. body (k v)) st"
  by (induction vs arbitrary: st) (auto split: sum.splits)

lemma forEach_filter:
  "forEach (filter P vs) body st = forEach vs (\<lambda>v st. if P v then body v st else Inr st) st"
  by (induction vs arbitrary: st) (auto split: sum.splits)

lemma forEach_concat:
  "forEach (concat xss) body st = forEach xss (\<lambda>xs. forEach xs body) st"
  by (induction xss arbitrary: st) (auto simp: forEach_append split: sum.splits)

lemma forEach_product:
  "forEach xs (\<lambda>x. forEach ys (\<lambda>y. body x y)) st =
   forEach (List.product xs ys) (\<lambda>p. body (fst p) (snd p)) st"
proof (induction xs arbitrary: st)
  case Nil
  then show ?case by simp
next
  case (Cons x xs)
  show ?case
    by (simp add: forEach_append forEach_map Cons.IH split: sum.splits)
qed

lemma forEach_invariant:
  assumes "forEach vs body st = Inr st'" and "I st"
    and "\<And>v a b. v \<in> set vs \<Longrightarrow> I a \<Longrightarrow> body v a = Inr b \<Longrightarrow> I b"
  shows "I st'"
  using assms
proof (induction vs arbitrary: st)
  case Nil
  then show ?case by simp
next
  case (Cons v vs)
  from Cons.prems(1) obtain a where a: "body v st = Inr a" and r: "forEach vs body a = Inr st'"
    by (auto split: sum.splits)
  have "I a" using Cons.prems(2,3) a by auto
  with r Cons.IH Cons.prems(3) show ?case by (metis list.set_intros(2))
qed

lemma forEach_no_visit:
  "(\<And>v st. v \<in> set vs \<Longrightarrow> body v st = Inr st) \<Longrightarrow> forEach vs body st = Inr st"
  by (induction vs arbitrary: st) auto

lemma set_foldl_set_add: "set (foldl set_add S b) = set S \<union> set b"
  by (induction b arbitrary: S) (auto simp: set_add_def)

lemma distinct_foldl_set_add: "distinct S \<Longrightarrow> distinct (foldl set_add S b)"
  by (induction b arbitrary: S) (auto simp: set_add_def)

lemma inBounds_of_int:
  "inBounds s (of_int tx) (of_int ty) \<longleftrightarrow> 0 \<le> tx \<and> tx < xTiles s \<and> 0 \<le> ty \<and> ty < yTiles s"
  by (simp add: inBounds_def)


lemma not_inBounds:
  "xTiles s \<le> 0 \<or> yTiles s \<le> 0 \<Longrightarrow> \<not> inBounds s tx ty"
proof -
  assume a: "xTiles s \<le> 0 \<or> yTiles s \<le> 0"
  have "(of_int (xTiles s) :: real) \<le> 0 \<or> (of_int (yTiles s) :: real) \<le> 0"
    using a by simp
  then show ?thesis unfolding inBounds_def by linarith
qed

lemma is_index_of_int: "is_index g (of_int i) \<longleftrightarrow> 0 \<le> i \<and> i < int (length g)"
  by (auto simp: is_index_def)

lemma is_index_of_nat: "is_index g (of_nat i) \<longleftrightarrow> i < length g"
  by (auto simp: is_index_def)

lemma tile_index_bound:
  fixes X Y tx ty :: int
  assumes "0 \<le> tx" "tx < X" "0 \<le> ty" "ty < Y"
  shows "0 \<le> ty * X + tx" and "ty * X + tx < X * Y"
proof -
  show "0 \<le> ty * X + tx" using assms by simp
  have "ty + 1 \<le> Y" using assms by simp
  then have "(ty + 1) * X \<le> Y * X" using assms by (intro mult_right_mono) auto
  then show "ty * X + tx < X * Y" using assms by (simp add: algebra_simps)
qed

lemma tile_index_inj:
  fixes X tx ty tx' ty' :: int
  assumes "0 \<le> tx" "tx < X" "0 \<le> tx'" "tx' < X" "ty * X + tx = ty' * X + tx'"
  shows "tx = tx' \<and> ty = ty'"
proof -
  have m: "(ty * X + tx) mod X = (ty' * X + tx') mod X"
    and d: "(ty * X + tx) div X = (ty' * X + tx') div X"
    using assms(5) by (rule arg_cong)+
  have "(ty * X + tx) mod X = tx" "(ty' * X + tx') mod X = tx'" using assms(1-4) by simp_all
  with m have "tx = tx'" by simp
  moreover have "(ty * X + tx) div X = ty" "(ty' * X + tx') div X = ty'"
    using assms(1-4) by simp_all
  with d have "ty = ty'" by simp
  ultimately show ?thesis by simp
qed

text \<open>
  For a tile of a grid with fewer than \<open>2 ^ 32\<close> tiles the bucket index is computed without
  rounding, and rounding an integer does not change whether it is a tile coordinate of the grid.
\<close>

lemma tileIndex_of_int:
  assumes "xTiles s * yTiles s < 2 ^ 32" "inBounds s (of_int tx) (of_int ty)"
  shows "tileIndex s (of_int tx) (of_int ty) = of_int (ty * xTiles s + tx)"
proof -
  from assms(2) have b: "0 \<le> tx" "tx < xTiles s" "0 \<le> ty" "ty < yTiles s"
    by (simp_all add: inBounds_of_int)
  note i = tile_index_bound[OF b]
  have p: "0 \<le> ty * xTiles s" using b by simp
  have "ty * xTiles s \<le> ty * xTiles s + tx" using b by simp
  with i(2) assms(1) have "ty * xTiles s < 2 ^ 32" by linarith
  with p have "\<bar>ty * xTiles s\<bar> < 2 ^ 53" by simp
  then have "fl (of_int (ty * xTiles s)) = of_int (ty * xTiles s)" by (rule fl_of_int)
  then have m: "fl (of_int ty * of_int (xTiles s)) = of_int (ty * xTiles s)" by simp
  from i assms(1) have "\<bar>ty * xTiles s + tx\<bar> < 2 ^ 53" by simp
  then have "fl (of_int (ty * xTiles s + tx)) = of_int (ty * xTiles s + tx)" by (rule fl_of_int)
  then have "fl (of_int (ty * xTiles s) + of_int tx) = of_int (ty * xTiles s + tx)" by simp
  then show ?thesis unfolding tileIndex_def m .
qed

lemma fl_int_in_range:
  fixes a N :: int
  assumes "0 \<le> N" "N < 2 ^ 53"
  shows "0 \<le> fl (of_int a) \<and> fl (of_int a) < of_int N \<longleftrightarrow> 0 \<le> a \<and> a < N"
proof
  assume f: "0 \<le> fl (of_int a) \<and> fl (of_int a) < of_int N"
  have "0 \<le> a"
  proof (rule ccontr)
    assume "\<not> 0 \<le> a"
    then have "a \<le> - 1" by simp
    then have "(of_int a :: real) \<le> of_int (- 1)" by (simp only: of_int_le_iff)
    then have "fl (of_int a) \<le> fl (of_int (- 1))" by (rule fl_mono)
    also have "fl (of_int (- 1)) = of_int (- 1)" by (rule fl_of_int) simp
    finally show False using f by simp
  qed
  moreover have "a < N"
  proof (rule ccontr)
    assume "\<not> a < N"
    then have "N \<le> a" by simp
    then have "(of_int N :: real) \<le> of_int a" by (simp only: of_int_le_iff)
    then have "fl (of_int N) \<le> fl (of_int a)" by (rule fl_mono)
    moreover have "fl (of_int N) = of_int N" using assms by (intro fl_of_int) simp
    ultimately show False using f by simp
  qed
  ultimately show "0 \<le> a \<and> a < N" by simp
next
  assume a: "0 \<le> a \<and> a < N"
  with assms have "\<bar>a\<bar> < 2 ^ 53" by simp
  then have "fl (of_int a) = of_int a" by (rule fl_of_int)
  with a show "0 \<le> fl (of_int a) \<and> fl (of_int a) < of_int N" by simp
qed

lemma tiles_small:
  assumes "xTiles s * yTiles s < 2 ^ 32" "0 < xTiles s" "0 < yTiles s"
  shows "xTiles s < 2 ^ 53" "yTiles s < 2 ^ 53"
proof -
  have "xTiles s * 1 \<le> xTiles s * yTiles s" using assms(2,3) by (intro mult_left_mono) simp_all
  with assms(1) show "xTiles s < 2 ^ 53" by simp
  have "1 * yTiles s \<le> xTiles s * yTiles s" using assms(2,3) by (intro mult_right_mono) simp_all
  with assms(1) show "yTiles s < 2 ^ 53" by simp
qed

lemma inBounds_fl:
  assumes "xTiles s * yTiles s < 2 ^ 32"
  shows "inBounds s (fl (of_int a)) (fl (of_int b)) \<longleftrightarrow> inBounds s (of_int a) (of_int b)"
proof (cases "xTiles s \<le> 0 \<or> yTiles s \<le> 0")
  case True
  then show ?thesis by (simp add: not_inBounds)
next
  case False
  then have p: "0 < xTiles s" "0 < yTiles s" by simp_all
  note t = tiles_small[OF assms p]
  from fl_int_in_range[of "xTiles s" a] fl_int_in_range[of "yTiles s" b] p t
  show ?thesis unfolding inBounds_def by auto
qed

lemma inBounds_exact:
  assumes "xTiles s * yTiles s < 2 ^ 32" "inBounds s (of_int a) (of_int b)"
  shows "fl (of_int a) = of_int a" "fl (of_int b) = of_int b"
proof -
  from assms(2) have b: "0 \<le> a" "a < xTiles s" "0 \<le> b" "b < yTiles s"
    by (simp_all add: inBounds_of_int)
  then have p: "0 < xTiles s" "0 < yTiles s" by simp_all
  note t = tiles_small[OF assms(1) p]
  from b t have "\<bar>a\<bar> < 2 ^ 53" "\<bar>b\<bar> < 2 ^ 53" by simp_all
  then show "fl (of_int a) = of_int a" "fl (of_int b) = of_int b" by (simp_all add: fl_of_int)
qed

subsection \<open>The bucket table that \<open>update\<close> builds\<close>

lemma set_objTiles:
  "set (objTiles s obj) = {(tx, ty). covers s obj tx ty \<and> inBounds s (of_int tx) (of_int ty)}"
  by (auto simp: objTiles_def covers_def)

lemma distinct_objTiles: "distinct (objTiles s obj)"
  by (simp add: objTiles_def distinct_product)

lemma tileNat_less:
  assumes "inBounds s (of_int (fst p)) (of_int (snd p))"
  shows "tileNat s p < nat (xTiles s * yTiles s)"
proof -
  from assms have b: "0 \<le> fst p" "fst p < xTiles s" "0 \<le> snd p" "snd p < yTiles s"
    by (simp_all add: inBounds_of_int)
  from tile_index_bound[OF b] show ?thesis by (simp add: tileNat_def nat_less_iff)
qed

lemma tileNat_real:
  assumes "xTiles s * yTiles s < 2 ^ 32" "inBounds s (of_int (fst p)) (of_int (snd p))"
  shows "tileIndex s (of_int (fst p)) (of_int (snd p)) = real (tileNat s p)"
proof -
  from assms(2) have b: "0 \<le> fst p" "fst p < xTiles s" "0 \<le> snd p" "snd p < yTiles s"
    by (simp_all add: inBounds_of_int)
  from tile_index_bound(1)[OF b] show ?thesis
    by (simp add: tileNat_def tileIndex_of_int[OF assms])
qed

lemma tileNat_inj:
  assumes "inBounds s (of_int (fst p)) (of_int (snd p))"
    and "inBounds s (of_int (fst q)) (of_int (snd q))"
    and "tileNat s p = tileNat s q"
  shows "p = q"
proof -
  from assms(1) have b: "0 \<le> fst p" "fst p < xTiles s" "0 \<le> snd p" "snd p < yTiles s"
    by (simp_all add: inBounds_of_int)
  from assms(2) have c: "0 \<le> fst q" "fst q < xTiles s" "0 \<le> snd q" "snd q < yTiles s"
    by (simp_all add: inBounds_of_int)
  from tile_index_bound(1)[OF b] tile_index_bound(1)[OF c] assms(3)
  have "snd p * xTiles s + fst p = snd q * xTiles s + fst q"
    by (simp add: tileNat_def)
  from tile_index_inj[OF b(1,2) c(1,2) this] show ?thesis by (simp add: prod_eq_iff)
qed

lemma registered_tile:
  assumes "inBounds s (of_int tx) (of_int ty)"
  shows "registered s obj (tileNat s (tx, ty)) \<longleftrightarrow> covers s obj tx ty"
proof
  assume "registered s obj (tileNat s (tx, ty))"
  then obtain p where p: "p \<in> set (objTiles s obj)" "tileNat s p = tileNat s (tx, ty)"
    by (auto simp: registered_def)
  then have "inBounds s (of_int (fst p)) (of_int (snd p))" by (auto simp: set_objTiles)
  with p(2) assms have "p = (tx, ty)" by (intro tileNat_inj) auto
  with p(1) show "covers s obj tx ty" by (simp add: set_objTiles)
next
  assume "covers s obj tx ty"
  with assms have "(tx, ty) \<in> set (objTiles s obj)" by (simp add: set_objTiles)
  then show "registered s obj (tileNat s (tx, ty))" unfolding registered_def by blast
qed

lemma count_list_distinct: "distinct xs \<Longrightarrow> count_list xs x = (if x \<in> set xs then 1 else 0)"
  by (induction xs) auto

lemma count_objTiles:
  "count_list (map (tileNat s) (objTiles s obj)) j = (if registered s obj j then 1 else 0)"
proof -
  have "inj_on (tileNat s) (set (objTiles s obj))"
  proof (rule inj_onI)
    fix p q
    assume "p \<in> set (objTiles s obj)" "q \<in> set (objTiles s obj)" "tileNat s p = tileNat s q"
    then show "p = q" by (intro tileNat_inj[of s p q]) (auto simp: set_objTiles)
  qed
  then have "distinct (map (tileNat s) (objTiles s obj))"
    by (simp add: distinct_map distinct_objTiles)
  then show ?thesis by (auto simp: count_list_distinct registered_def)
qed

lemma push_of_nat:
  "i < length g \<Longrightarrow> push g (real i) obj = Inr (g[i := g ! i @ [obj]])"
  by (simp add: push_def is_index_of_nat)

lemma push_all:
  assumes "\<forall>i\<in>set is. i < length g"
  shows "forEach (map real is) (\<lambda>i g. push g i obj) g =
         Inr (map (\<lambda>j. g ! j @ replicate (count_list is j) obj) [0..<length g])"
  using assms
proof (induction "is" arbitrary: g)
  case Nil
  then show ?case by (simp add: map_nth)
next
  case (Cons i "is")
  let ?g = "g[i := g ! i @ [obj]]"
  have i: "i < length g" using Cons.prems by simp
  have "\<forall>k\<in>set is. k < length ?g" using Cons.prems by simp
  from Cons.IH[OF this] i show ?case
    by (auto simp: push_of_nat nth_list_update replicate_append_same)
qed
lemma update_obj:
  assumes B: "xTiles s * yTiles s < 2 ^ 32"
  shows "forEach [startX s ob..endX s ob] (\<lambda>x.
     forEach [startY s ob..endY s ob] (\<lambda>y g.
       if inBounds s (of_int x) (of_int y)
       then push g (tileIndex s (of_int x) (of_int y)) obj
       else Inr g)) g =
   forEach (map real (map (tileNat s) (objTiles s ob))) (\<lambda>i g. push g i obj) g"
proof -
  let ?body = "\<lambda>p g. if inBounds s (of_int (fst p)) (of_int (snd p))
       then push g (tileIndex s (of_int (fst p)) (of_int (snd p))) obj else Inr g"
  have "forEach [startX s ob..endX s ob] (\<lambda>x.
     forEach [startY s ob..endY s ob] (\<lambda>y g.
       if inBounds s (of_int x) (of_int y)
       then push g (tileIndex s (of_int x) (of_int y)) obj
       else Inr g)) g =
    forEach (List.product [startX s ob..endX s ob] [startY s ob..endY s ob]) ?body g"
    by (simp add: forEach_product)
  also have "\<dots> = forEach (objTiles s ob)
                    (\<lambda>p g. push g (tileIndex s (of_int (fst p)) (of_int (snd p))) obj) g"
    by (simp add: objTiles_def forEach_filter)
  also have "\<dots> = forEach (objTiles s ob) (\<lambda>p g. push g (real (tileNat s p)) obj) g"
  proof (rule forEach_cong)
    fix p st
    assume "p \<in> set (objTiles s ob)"
    then have "inBounds s (of_int (fst p)) (of_int (snd p))" by (auto simp: set_objTiles)
    then show "push st (tileIndex s (of_int (fst p)) (of_int (snd p))) obj =
               push st (real (tileNat s p)) obj"
      by (simp add: tileNat_real[OF B])
  qed
  finally show ?thesis by (simp add: forEach_map)
qed

lemma update_objs:
  assumes "length g = nat (xTiles s * yTiles s)" and B: "xTiles s * yTiles s < 2 ^ 32"
  shows "forEach objs (\<lambda>obj.
           forEach [startX s (h obj)..endX s (h obj)] (\<lambda>x.
             forEach [startY s (h obj)..endY s (h obj)] (\<lambda>y g.
               if inBounds s (of_int x) (of_int y)
               then push g (tileIndex s (of_int x) (of_int y)) obj
               else Inr g))) g =
         Inr (map (\<lambda>j. g ! j @ filter (\<lambda>obj. registered s (h obj) j) objs) [0..<length g])"
  using assms(1)
proof (induction objs arbitrary: g)
  case Nil
  show ?case by (simp add: map_nth)
next
  case (Cons obj objs)
  let ?is = "map (tileNat s) (objTiles s (h obj))"
  let ?g = "map (\<lambda>j. g ! j @ replicate (count_list ?is j) obj) [0..<length g]"
  have "\<forall>i\<in>set ?is. i < length g"
  proof
    fix i assume "i \<in> set ?is"
    then obtain p where "p \<in> set (objTiles s (h obj))" "i = tileNat s p" by auto
    then show "i < length g" using Cons.prems tileNat_less[of s p] by (auto simp: set_objTiles)
  qed
  then have step: "forEach (map real ?is) (\<lambda>i g. push g i obj) g = Inr ?g"
    by (rule push_all)
  have len: "length ?g = nat (xTiles s * yTiles s)" using Cons.prems by simp
  have head: "forEach [startX s (h obj)..endX s (h obj)] (\<lambda>x.
             forEach [startY s (h obj)..endY s (h obj)] (\<lambda>y g.
               if inBounds s (of_int x) (of_int y)
               then push g (tileIndex s (of_int x) (of_int y)) obj
               else Inr g)) g = Inr ?g"
    using update_obj[OF B, of "h obj" obj g] step by simp
  let ?B = "\<lambda>obj. forEach [startX s (h obj)..endX s (h obj)] (\<lambda>x.
             forEach [startY s (h obj)..endY s (h obj)] (\<lambda>y g.
               if inBounds s (of_int x) (of_int y)
               then push g (tileIndex s (of_int x) (of_int y)) obj
               else Inr g))"
  have "forEach (obj # objs) ?B g = forEach objs ?B ?g"
    by (simp add: head)
  also have "\<dots> = Inr (map (\<lambda>j. ?g ! j @ filter (\<lambda>obj. registered s (h obj) j) objs)
                         [0..<length ?g])"
    by (rule Cons.IH[OF len])
  also have "\<dots> = Inr (map (\<lambda>j. g ! j @ filter (\<lambda>obj. registered s (h obj) j) (obj # objs))
                         [0..<length g])"
    by (auto simp: count_objTiles)
  finally show ?case .
qed

lemma update_eq:
  assumes B: "xTiles s * yTiles s < 2 ^ 32"
  shows "update h s = Inr (s\<lparr>grid := buckets h s\<rparr>)"
proof -
  have "length (replicate (nat (xTiles s * yTiles s)) ([]::ref list)) = nat (xTiles s * yTiles s)"
    by simp
  from update_objs[OF this B, of "objects s" h] B show ?thesis
    by (simp add: update_def buckets_def)
qed

lemma update_range_error:
  "2 ^ 32 \<le> xTiles s * yTiles s \<Longrightarrow> update h s = Inl RangeError"
  by (simp add: update_def)

lemma buckets_grid [simp]: "buckets h (s\<lparr>grid := g\<rparr>) = buckets h s"
  by (simp add: buckets_def registered_def objTiles_def tileNat_def inBounds_def xTiles_def
      yTiles_def startX_def startY_def endX_def endY_def)

lemma length_buckets [simp]: "length (buckets h s) = nat (xTiles s * yTiles s)"
  by (simp add: buckets_def)

lemma bucketAt_buckets:
  assumes B: "xTiles s * yTiles s < 2 ^ 32" and "inBounds s (of_int tx) (of_int ty)"
  shows "bucketAt (buckets h s) (tileIndex s (of_int tx) (of_int ty)) =
         Inr (filter (\<lambda>obj. covers s (h obj) tx ty) (objects s))"
proof -
  have r: "tileIndex s (of_int tx) (of_int ty) = real (tileNat s (tx, ty))"
    using tileNat_real[OF B, of "(tx, ty)"] assms(2) by simp
  have l: "tileNat s (tx, ty) < nat (xTiles s * yTiles s)"
    using tileNat_less[of s "(tx, ty)"] assms(2) by simp
  show ?thesis
    using l registered_tile[OF assms(2)]
    by (simp add: r bucketAt_def is_index_of_nat buckets_def)
qed

lemma in_buckets:
  assumes "b \<in> set (buckets h s)" "obj \<in> set b"
  shows "obj \<in> set (objects s) \<and>
         (\<exists>tx ty. inBounds s (of_int tx) (of_int ty) \<and> covers s (h obj) tx ty)"
proof -
  from assms obtain j where "obj \<in> set (objects s)" "registered s (h obj) j"
    by (auto simp: buckets_def)
  then show ?thesis unfolding registered_def set_objTiles by blast
qed

lemma grid_frame [simp]:
  "xTiles (s\<lparr>grid := g\<rparr>) = xTiles s"
  "yTiles (s\<lparr>grid := g\<rparr>) = yTiles s"
  "inBounds (s\<lparr>grid := g\<rparr>) = inBounds s"
  "tileIndex (s\<lparr>grid := g\<rparr>) = tileIndex s"
  "tileNat (s\<lparr>grid := g\<rparr>) = tileNat s"
  "covers (s\<lparr>grid := g\<rparr>) = covers s"
  by (simp_all add: fun_eq_iff xTiles_def yTiles_def inBounds_def tileIndex_def tileNat_def
      covers_def startX_def startY_def endX_def endY_def)

lemma nth_buckets:
  assumes "inBounds s (of_int a) (of_int b)"
  shows "buckets h s ! tileNat s (a, b) = filter (\<lambda>obj. covers s (h obj) a b) (objects s)"
proof -
  have l: "tileNat s (a, b) < nat (xTiles s * yTiles s)"
    using tileNat_less[of s "(a, b)"] assms by simp
  show ?thesis using l registered_tile[OF assms] by (simp add: buckets_def)
qed

lemma objects_frame [simp]:
  "xTiles (s\<lparr>objects := os\<rparr>) = xTiles s"
  "yTiles (s\<lparr>objects := os\<rparr>) = yTiles s"
  "inBounds (s\<lparr>objects := os\<rparr>) = inBounds s"
  "tileIndex (s\<lparr>objects := os\<rparr>) = tileIndex s"
  "covers (s\<lparr>objects := os\<rparr>) = covers s"
  "tileNat (s\<lparr>objects := os\<rparr>) = tileNat s"
  by (simp_all add: fun_eq_iff xTiles_def yTiles_def inBounds_def tileIndex_def tileNat_def
      covers_def startX_def startY_def endX_def endY_def)

lemma bucketed_buckets:
  "bucketed (buckets h s) =
   {obj \<in> set (objects s). \<exists>tx ty. inBounds s (of_int tx) (of_int ty) \<and> covers s (h obj) tx ty}"
proof (rule set_eqI, rule iffI)
  fix obj
  assume "obj \<in> bucketed (buckets h s)"
  then obtain b where "b \<in> set (buckets h s)" "obj \<in> set b" by (auto simp: bucketed_def)
  from in_buckets[OF this]
  show "obj \<in> {obj \<in> set (objects s). \<exists>tx ty. inBounds s (of_int tx) (of_int ty) \<and>
                  covers s (h obj) tx ty}" by simp
next
  fix obj
  assume "obj \<in> {obj \<in> set (objects s). \<exists>tx ty. inBounds s (of_int tx) (of_int ty) \<and>
                  covers s (h obj) tx ty}"
  then obtain tx ty where t: "obj \<in> set (objects s)" "inBounds s (of_int tx) (of_int ty)"
    "covers s (h obj) tx ty" by auto
  have l: "tileNat s (tx, ty) < length (buckets h s)"
    using tileNat_less[of s "(tx, ty)"] t(2) by simp
  have "obj \<in> set (buckets h s ! tileNat s (tx, ty))"
    using t by (simp add: nth_buckets)
  with l show "obj \<in> bucketed (buckets h s)"
    unfolding bucketed_def by (metis UN_iff nth_mem)
qed

subsection \<open>The code and the rules of the specification\<close>

lemma nullish_simps [simp]: "nullish None d = d" "nullish (Some a) d = a"
  by (simp_all add: nullish_def)

lemma or_else_zero [simp]: "or_else v 0 = nullish v 0"
  by (simp add: or_else_def nullish_def split: option.splits)

lemma spec_radius_nullish: "spec_radius obj = nullish (obj_radius obj) 0"
  by (simp add: spec_radius_def nullish_def)

lemma covers_spans: "covers s obj tx ty \<longleftrightarrow> spec_spans s obj tx ty"
  by (simp add: covers_def spec_spans_def spec_tile_def startX_def startY_def endX_def endY_def
      spec_left_def spec_right_def spec_top_def spec_bottom_def spec_radius_nullish
      nullish_def split: option.splits)

lemma inBounds_spec: "inBounds s (of_int tx) (of_int ty) \<longleftrightarrow> spec_in_grid s tx ty"
  by (simp add: inBounds_of_int spec_in_grid_def)

lemma circleHit_spec: "circleHit obj x y r \<longleftrightarrow> spec_circle_test obj x y r"
  by (simp add: circleHit_def spec_circle_test_def Let_def spec_radius_nullish)

lemma rectHit_spec: "rectHit obj x y w ht \<longleftrightarrow> spec_rect_test obj x y w ht"
  by (simp add: rectHit_def spec_rect_test_def Let_def nullish_def split: option.splits)

lemma lineHit_spec:
  assumes "spec_length_squared fromX fromY toX toY \<noteq> 0"
  shows "lineHit obj fromX fromY toX toY w \<longleftrightarrow> spec_line_test obj fromX fromY toX toY w"
  using assms
  by (simp add: lineHit_def spec_line_test_def spec_distance_squared_def spec_projection_def
      spec_length_squared_def Let_def spec_radius_nullish)

lemma valid_store_bound: "valid_store h s \<Longrightarrow> xTiles s * yTiles s < 2 ^ 32"
  by (simp add: valid_store_def)

lemma tileNat_index:
  assumes "spec_in_grid s tx ty"
  shows "tileNat s (tx, ty) = nat (ty * xTiles s + tx)"
  by (simp add: tileNat_def)

subsection \<open>Claims about \<open>update\<close>\<close>

text \<open>
  Claim C9. On a store whose bucket table can be allocated and whose objects have tile
  ranges that the loops of \<open>update\<close> can count through, \<open>update\<close> is idempotent: it
  returns, and running it again on the store it returns gives the same store back, bucket
  table included, so every later query sees the same state.
\<close>

theorem update_idempotent:
  assumes "valid_store h s"
  shows "\<exists>s1. update h s = Inr s1 \<and> update h s1 = Inr s1"
proof -
  have B: "xTiles s * yTiles s < 2 ^ 32" using assms by (rule valid_store_bound)
  let ?s1 = "s\<lparr>grid := buckets h s\<rparr>"
  have B1: "xTiles ?s1 * yTiles ?s1 < 2 ^ 32" using B by simp
  have "update h s = Inr ?s1" by (rule update_eq[OF B])
  moreover have "update h ?s1 = Inr ?s1" using update_eq[OF B1, of h] by simp
  ultimately show ?thesis by blast
qed

theorem update_idempotent_witness:
  "valid_store example_heap example_store \<and>
   (\<exists>s1. update example_heap example_store = Inr s1 \<and> update example_heap s1 = Inr s1)"
proof -
  have v: "valid_store example_heap example_store"
    unfolding example_heap_def example_store_def example_object_def by code_simp
  from update_idempotent[OF v] v show ?thesis by blast
qed

text \<open>
  Claim C4. On such a store \<open>update\<close> returns a store with \<open>xTiles * yTiles\<close> buckets in
  which the bucket \<open>ty * xTiles + tx\<close> of every tile \<open>(tx, ty)\<close> of the grid
  (\<open>0 \<le> tx < xTiles\<close>, \<open>0 \<le> ty < yTiles\<close>) holds, in the order of the object list,
  exactly the live objects whose extent (explicit \<open>left\<close>, \<open>right\<close>, \<open>top\<close>, \<open>bottom\<close> edge
  where present, otherwise centre \<open>\<plusminus>\<close> radius, radius 0 when absent) spans a floor-divided
  tile range that contains \<open>(tx, ty)\<close>; an object whose tile range has no tile of the grid
  is in no bucket. The rule is written out in the statement, in double arithmetic.
\<close>

theorem update_buckets:
  assumes "valid_store h s"
  shows "let radius = (\<lambda>obj. case obj_radius obj of None \<Rightarrow> 0 | Some r \<Rightarrow> r);
             left = (\<lambda>obj. case obj_left obj of Some e \<Rightarrow> e | None \<Rightarrow> fl (obj_x obj - radius obj));
             right = (\<lambda>obj. case obj_right obj of Some e \<Rightarrow> e | None \<Rightarrow> fl (obj_x obj + radius obj));
             top = (\<lambda>obj. case obj_top obj of Some e \<Rightarrow> e | None \<Rightarrow> fl (obj_y obj - radius obj));
             bottom = (\<lambda>obj. case obj_bottom obj of Some e \<Rightarrow> e | None \<Rightarrow> fl (obj_y obj + radius obj));
             tile = (\<lambda>c. \<lfloor>fl (c / tileSize s)\<rfloor>);
             spans = (\<lambda>obj tx ty. tile (left obj) \<le> tx \<and> tx \<le> tile (right obj) \<and>
                                   tile (top obj) \<le> ty \<and> ty \<le> tile (bottom obj));
             nx = \<lfloor>fl (width s / tileSize s)\<rfloor>;
             ny = \<lfloor>fl (height s / tileSize s)\<rfloor>;
             in_grid = (\<lambda>tx ty. 0 \<le> tx \<and> tx < nx \<and> 0 \<le> ty \<and> ty < ny)
         in \<exists>s'. update h s = Inr s' \<and> objects s' = objects s \<and>
              length (grid s') = nat (nx * ny) \<and>
              (\<forall>tx ty. in_grid tx ty \<longrightarrow>
                 grid s' ! nat (ty * nx + tx) = filter (\<lambda>obj. spans (h obj) tx ty) (objects s)) \<and>
              (\<forall>obj. (\<forall>tx ty. spans (h obj) tx ty \<longrightarrow> \<not> in_grid tx ty) \<longrightarrow>
                 (\<forall>b\<in>set (grid s'). obj \<notin> set b))"
proof -
  have B: "xTiles s * yTiles s < 2 ^ 32" using assms by (rule valid_store_bound)
  have cov: "covers s obj tx ty \<longleftrightarrow>
        \<lfloor>fl ((case obj_left obj of Some e \<Rightarrow> e
               | None \<Rightarrow> fl (obj_x obj - (case obj_radius obj of None \<Rightarrow> 0 | Some r \<Rightarrow> r)))
             / tileSize s)\<rfloor> \<le> tx \<and>
        tx \<le> \<lfloor>fl ((case obj_right obj of Some e \<Rightarrow> e
               | None \<Rightarrow> fl (obj_x obj + (case obj_radius obj of None \<Rightarrow> 0 | Some r \<Rightarrow> r)))
             / tileSize s)\<rfloor> \<and>
        \<lfloor>fl ((case obj_top obj of Some e \<Rightarrow> e
               | None \<Rightarrow> fl (obj_y obj - (case obj_radius obj of None \<Rightarrow> 0 | Some r \<Rightarrow> r)))
             / tileSize s)\<rfloor> \<le> ty \<and>
        ty \<le> \<lfloor>fl ((case obj_bottom obj of Some e \<Rightarrow> e
               | None \<Rightarrow> fl (obj_y obj + (case obj_radius obj of None \<Rightarrow> 0 | Some r \<Rightarrow> r)))
             / tileSize s)\<rfloor>" for obj tx ty
    by (simp add: covers_def startX_def startY_def endX_def endY_def nullish_def
        split: option.splits)
  have ib: "inBounds s (of_int tx) (of_int ty) \<longleftrightarrow>
        0 \<le> tx \<and> tx < \<lfloor>fl (width s / tileSize s)\<rfloor> \<and> 0 \<le> ty \<and> ty < \<lfloor>fl (height s / tileSize s)\<rfloor>"
    for tx ty
    by (simp add: inBounds_of_int xTiles_def yTiles_def)
  let ?s' = "s\<lparr>grid := buckets h s\<rparr>"
  have u: "update h s = Inr ?s'" by (rule update_eq[OF B])
  have l: "length (grid ?s') = nat (\<lfloor>fl (width s / tileSize s)\<rfloor> * \<lfloor>fl (height s / tileSize s)\<rfloor>)"
    by (simp add: xTiles_def yTiles_def)
  have b: "grid ?s' ! nat (ty * \<lfloor>fl (width s / tileSize s)\<rfloor> + tx) =
           filter (\<lambda>obj. covers s (h obj) tx ty) (objects s)"
    if "inBounds s (of_int tx) (of_int ty)" for tx ty
    using nth_buckets[OF that, of h] by (simp add: tileNat_def xTiles_def)
  have z: "\<forall>b\<in>set (grid ?s'). obj \<notin> set b"
    if "\<forall>tx ty. covers s (h obj) tx ty \<longrightarrow> \<not> inBounds s (of_int tx) (of_int ty)" for obj
  proof (intro ballI notI)
    fix b
    assume "b \<in> set (grid ?s')" and o: "obj \<in> set b"
    then have "b \<in> set (buckets h s)" by simp
    from in_buckets[OF this o] that show False by blast
  qed
  show ?thesis
    unfolding Let_def cov[symmetric] ib[symmetric]
    using u l b z by (intro exI[of _ ?s']) simp
qed

theorem update_buckets_witness:
  "valid_store point_heap example_store \<and>
   (\<exists>s'. update point_heap example_store = Inr s' \<and> length (grid s') = 4 \<and>
      grid s' ! 0 = [0] \<and> grid s' ! 3 = [])"
proof -
  have v: "valid_store point_heap example_store"
    unfolding point_heap_def example_store_def point_object_def by code_simp
  have e: "update point_heap example_store = Inr (example_store\<lparr>grid := [[0], [], [], []]\<rparr>)"
    unfolding point_heap_def example_store_def point_object_def by code_simp
  from update_buckets[OF v] obtain s' where
    u: "update point_heap example_store = Inr s'"
    by (auto simp: Let_def)
  from u e have "grid s' = [[0], [], [], []]" by auto
  then have "length (grid s') = 4 \<and> grid s' ! 0 = [0] \<and> grid s' ! 3 = []" by simp
  with v u show ?thesis by blast
qed

subsection \<open>The rasterisation loop returns\<close>

text \<open>
  With \<open>a\<close> and \<open>b\<close> the remaining distances to the end tile, the loop keeps
  \<open>err = dx * (1 - b) + dy * (a - 1)\<close>. Hence it never steps past the end tile on either
  axis, every round takes at least one step, and \<open>a + b\<close> decreases.
\<close>

lemma bresenham_returns:
  fixes a b :: int
  assumes "0 \<le> a" "a \<le> dx" "0 \<le> b" "b \<le> dy"
    and "sx = 1 \<or> sx = - 1" "sy = 1 \<or> sy = - 1"
    and "x0 = x1 - sx * a" "y0 = y1 - sy * b"
    and "err = dx * (1 - b) + dy * (a - 1)"
    and "inBounds s' = inBounds s"
  shows "\<exists>r. bresenham s x1 y1 dx dy sx sy x0 y0 err acc = Some r \<and>
             bresenham s' x1 y1 dx dy sx sy x0 y0 err acc = Some r \<and>
             set r \<subseteq> set acc \<union> {p. inBounds s (of_int (fst p)) (of_int (snd p))}"
  using assms
proof (induction "nat (a + b)" arbitrary: a b x0 y0 err acc rule: less_induct)
  case less
  define acc' where "acc' = (if inBounds s (of_int x0) (of_int y0) then acc @ [(x0, y0)] else acc)"
  have acc': "set acc' \<subseteq> set acc \<union> {p. inBounds s (of_int (fst p)) (of_int (snd p))}"
    by (auto simp: acc'_def)
  define stepX where "stepX \<longleftrightarrow> 2 * err > - dy"
  define stepY where "stepY \<longleftrightarrow> 2 * err < dx"
  define a' where "a' = (if stepX then a - 1 else a)"
  define b' where "b' = (if stepY then b - 1 else b)"
  define x0' where "x0' = (if stepX then x0 + sx else x0)"
  define y0' where "y0' = (if stepY then y0 + sy else y0)"
  define err' where "err' = (if stepY then (if stepX then err - dy else err) + dx
                             else (if stepX then err - dy else err))"
  have fin: "x0 = x1 \<and> y0 = y1 \<longleftrightarrow> a = 0 \<and> b = 0"
    using less.prems by auto
  have unf: "bresenham t x1 y1 dx dy sx sy x0 y0 err acc =
             (if a = 0 \<and> b = 0 then Some acc'
              else bresenham t x1 y1 dx dy sx sy x0' y0' err' acc')"
    if "inBounds t = inBounds s" for t
    by (subst bresenham.simps)
       (simp add: Let_def fin acc'_def stepX_def stepY_def x0'_def y0'_def err'_def that)
  note unf1 = unf[of s, OF refl] and unf2 = unf[of s', OF less.prems(10)]
  show ?case
  proof (cases "a = 0 \<and> b = 0")
    case True
    then show ?thesis using unf1 unf2 acc' by simp
  next
    case False
    have dx0: "0 \<le> dx" and dy0: "0 \<le> dy" using less.prems by auto
    have P: "1 \<le> b \<Longrightarrow> dx * (1 - b) \<le> 0"
      using dx0 by (simp add: mult_nonneg_nonpos)
    have Q: "1 \<le> a \<Longrightarrow> 0 \<le> dy * (a - 1)"
      using dy0 by simp
    have errv: "err = dx * (1 - b) + dy * (a - 1)" using less.prems by simp
    have noX: "a = 0 \<Longrightarrow> \<not> stepX"
    proof -
      assume a0: "a = 0"
      with False less.prems have "1 \<le> b" by auto
      from P[OF this] a0 errv dy0 show "\<not> stepX" by (simp add: stepX_def)
    qed
    have noY: "b = 0 \<Longrightarrow> \<not> stepY"
    proof -
      assume b0: "b = 0"
      with False less.prems have "1 \<le> a" by auto
      from Q[OF this] b0 errv dx0 show "\<not> stepY" by (simp add: stepY_def)
    qed
    have prog: "stepX \<or> stepY"
    proof (rule ccontr)
      assume "\<not> (stepX \<or> stepY)"
      then have "2 * err \<le> - dy" "dx \<le> 2 * err" by (auto simp: stepX_def stepY_def)
      with dx0 dy0 have z: "dx = 0" "dy = 0" by auto
      with less.prems have "a = 0" "b = 0" by auto
      with False show False by simp
    qed
    have aX: "stepX \<Longrightarrow> 1 \<le> a" using noX less.prems(1) by (cases "a = 0") auto
    have bY: "stepY \<Longrightarrow> 1 \<le> b" using noY less.prems(3) by (cases "b = 0") auto
    have a'b': "0 \<le> a'" "a' \<le> dx" "0 \<le> b'" "b' \<le> dy"
      using less.prems(1-4) aX bY by (auto simp: a'_def b'_def)
    have dec: "nat (a' + b') < nat (a + b)"
      using prog aX bY less.prems(1,3) by (auto simp: a'_def b'_def)
    have x': "x0' = x1 - sx * a'"
      using less.prems by (auto simp: x0'_def a'_def algebra_simps)
    have y': "y0' = y1 - sy * b'"
      using less.prems by (auto simp: y0'_def b'_def algebra_simps)
    have e': "err' = dx * (1 - b') + dy * (a' - 1)"
      using errv by (auto simp: err'_def a'_def b'_def algebra_simps)
    from less.hyps[OF dec a'b' less.prems(5,6) x' y' e' less.prems(10), of acc']
    obtain r where "bresenham s x1 y1 dx dy sx sy x0' y0' err' acc' = Some r"
      "bresenham s' x1 y1 dx dy sx sy x0' y0' err' acc' = Some r"
      "set r \<subseteq> set acc' \<union> {p. inBounds s (of_int (fst p)) (of_int (snd p))}"
      by blast
    with acc' unf1 unf2 False show ?thesis by auto
  qed
qed

lemma lineTiles_returns:
  assumes "tileSize s' = tileSize s" "inBounds s' = inBounds s"
  shows "\<exists>r. lineTiles s fromX fromY toX toY = Some r \<and>
             lineTiles s' fromX fromY toX toY = Some r \<and>
             (\<forall>p\<in>set r. inBounds s (of_int (fst p)) (of_int (snd p)))"
proof -
  define x0 where "x0 = \<lfloor>fl (fromX / tileSize s)\<rfloor>"
  define y0 where "y0 = \<lfloor>fl (fromY / tileSize s)\<rfloor>"
  define x1 where "x1 = \<lfloor>fl (toX / tileSize s)\<rfloor>"
  define y1 where "y1 = \<lfloor>fl (toY / tileSize s)\<rfloor>"
  define sx :: int where "sx = (if x0 < x1 then 1 else - 1)"
  define sy :: int where "sy = (if y0 < y1 then 1 else - 1)"
  have "\<exists>r. bresenham s x1 y1 \<bar>x1 - x0\<bar> \<bar>y1 - y0\<bar> sx sy x0 y0 (\<bar>x1 - x0\<bar> - \<bar>y1 - y0\<bar>) [] = Some r \<and>
            bresenham s' x1 y1 \<bar>x1 - x0\<bar> \<bar>y1 - y0\<bar> sx sy x0 y0 (\<bar>x1 - x0\<bar> - \<bar>y1 - y0\<bar>) [] = Some r \<and>
            set r \<subseteq> set [] \<union> {p. inBounds s (of_int (fst p)) (of_int (snd p))}"
    by (rule bresenham_returns[where a = "\<bar>x1 - x0\<bar>" and b = "\<bar>y1 - y0\<bar>"])
       (auto simp: sx_def sy_def algebra_simps assms(2))
  then show ?thesis
    by (auto simp: lineTiles_def Let_def x0_def y0_def x1_def y1_def sx_def sy_def assms(1))
qed

subsection \<open>Queries that visit no tile\<close>

lemma offsets_negative: "n < 0 \<Longrightarrow> offsets n = []"
proof -
  assume "n < 0"
  then have "\<lfloor>2 * n\<rfloor> < 0" by (simp add: floor_less_iff)
  then show ?thesis by (simp add: offsets_def)
qed

lemma set_offsets_of_int: "set (offsets (of_int n)) = of_int ` {- n..n}"
proof -
  have f: "\<lfloor>2 * (of_int n :: real)\<rfloor> = 2 * n"
  proof -
    have "2 * (of_int n :: real) = of_int (2 * n)" by simp
    then show ?thesis by (simp only: floor_of_int)
  qed
  have s: "set (offsets (of_int n)) = (\<lambda>k. - of_int n + of_int k) ` {0..2 * n}"
    by (simp add: offsets_def f)
  show ?thesis
  proof (rule set_eqI)
    fix v :: real
    show "v \<in> set (offsets (of_int n)) \<longleftrightarrow> v \<in> of_int ` {- n..n}"
    proof
      assume "v \<in> set (offsets (of_int n))"
      then obtain k where k: "0 \<le> k" "k \<le> 2 * n" "v = - of_int n + of_int k"
        unfolding s by auto
      then have "v = of_int (k - n)" "k - n \<in> {- n..n}" by auto
      then show "v \<in> of_int ` {- n..n}" by blast
    next
      assume "v \<in> of_int ` {- n..n}"
      then obtain j where j: "- n \<le> j" "j \<le> n" "v = of_int j" by auto
      then have "v = - of_int n + of_int (j + n)" "j + n \<in> {0..2 * n}" by auto
      then show "v \<in> set (offsets (of_int n))" unfolding s by blast
    qed
  qed
qed

lemma offsets_zero: "offsets 0 = [0]"
  by (simp add: offsets_def)


lemma getNeighbors_no_tiles:
  assumes "xTiles s \<le> 0 \<or> yTiles s \<le> 0"
  shows "getNeighbors s x y n = Inr []"
  unfolding getNeighbors_def Let_def
  by (intro forEach_no_visit) (simp add: not_inBounds[OF assms])

lemma getNeighbors_negative: "n < 0 \<Longrightarrow> getNeighbors s x y n = Inr []"
  by (simp add: getNeighbors_def offsets_negative)

lemma circle_no_tiles:
  assumes "xTiles s \<le> 0 \<or> yTiles s \<le> 0"
  shows "getObjectsIntersectingCircle h s x y r = Inr []"
  by (simp add: getObjectsIntersectingCircle_def getNeighbors_no_tiles[OF assms])

lemma rect_no_tiles:
  assumes "xTiles s \<le> 0 \<or> yTiles s \<le> 0"
  shows "getObjectsIntersectingRect h s x y w ht = Inr []"
  unfolding getObjectsIntersectingRect_def
  by (intro forEach_no_visit) (simp add: not_inBounds[OF assms])

lemma expandTiles_Nil [simp]: "expandTiles s [] e = []"
  by (simp add: expandTiles_def)

lemma line_no_tiles:
  assumes "xTiles s \<le> 0 \<or> yTiles s \<le> 0"
  shows "getObjectsIntersectingLine h s fromX fromY toX toY w = Some (Inr [])"
proof -
  from lineTiles_returns[of s s fromX fromY toX toY] obtain r where
    r: "lineTiles s fromX fromY toX toY = Some r"
    "\<forall>p\<in>set r. inBounds s (of_int (fst p)) (of_int (snd p))" by blast
  from r(2) not_inBounds[OF assms] have "r = []" by (cases r) auto
  with r(1) show ?thesis by (simp add: getObjectsIntersectingLine_def)
qed

subsection \<open>Queries on the table that \<open>update\<close> builds\<close>

lemma visit_index:
  "is_index g i \<Longrightarrow> visit g i S = Inr (foldl set_add S (g ! nat \<lfloor>i\<rfloor>))"
  by (simp add: visit_def bucketAt_def)

lemma forEach_visit:
  assumes "\<And>v. v \<in> set vs \<Longrightarrow> P v \<Longrightarrow> is_index g (i v)"
  shows "forEach vs (\<lambda>v S. if P v then visit g (i v) S else Inr S) S0 =
         Inr (foldl set_add S0 (concat (map (\<lambda>v. g ! nat \<lfloor>i v\<rfloor>) (filter P vs))))"
  using assms
proof (induction vs arbitrary: S0)
  case Nil
  then show ?case by simp
next
  case (Cons v vs)
  then show ?case by (simp add: visit_index)
qed

lemma index_in_bounds:
  assumes "length g = nat (xTiles s * yTiles s)" "inBounds s (of_int a) (of_int b)"
    and B: "xTiles s * yTiles s < 2 ^ 32"
  shows "is_index g (tileIndex s (of_int a) (of_int b))"
    and "nat \<lfloor>tileIndex s (of_int a) (of_int b)\<rfloor> = tileNat s (a, b)"
proof -
  have r: "tileIndex s (of_int a) (of_int b) = real (tileNat s (a, b))"
    using tileNat_real[OF B, of "(a, b)"] assms(2) by simp
  have l: "tileNat s (a, b) < nat (xTiles s * yTiles s)"
    using tileNat_less[of s "(a, b)"] assms(2) by simp
  show "is_index g (tileIndex s (of_int a) (of_int b))"
    using l assms(1) by (simp add: r is_index_of_nat)
  show "nat \<lfloor>tileIndex s (of_int a) (of_int b)\<rfloor> = tileNat s (a, b)"
    by (simp add: r)
qed

lemma getNeighbors_product:
  "getNeighbors s x y n =
   forEach (List.product (offsets n) (offsets n))
     (\<lambda>p S. if inBounds s (fl (of_int \<lfloor>fl (x / tileSize s)\<rfloor> + fst p))
                          (fl (of_int \<lfloor>fl (y / tileSize s)\<rfloor> + snd p))
            then visit (grid s)
                   (tileIndex s (fl (of_int \<lfloor>fl (x / tileSize s)\<rfloor> + fst p))
                      (fl (of_int \<lfloor>fl (y / tileSize s)\<rfloor> + snd p))) S
            else Inr S) []"
  unfolding getNeighbors_def Let_def by (simp add: forEach_product)

lemma getNeighbors_int:
  assumes len: "length (grid s) = nat (xTiles s * yTiles s)" and B: "xTiles s * yTiles s < 2 ^ 32"
  shows "\<exists>res. getNeighbors s x y (of_int n) = Inr res \<and> distinct res \<and>
           set res = {obj. \<exists>a b. inBounds s (of_int a) (of_int b) \<and>
                        \<bar>a - \<lfloor>fl (x / tileSize s)\<rfloor>\<bar> \<le> n \<and> \<bar>b - \<lfloor>fl (y / tileSize s)\<rfloor>\<bar> \<le> n \<and>
                        obj \<in> set (grid s ! tileNat s (a, b))}"
proof -
  define tx where "tx = \<lfloor>fl (x / tileSize s)\<rfloor>"
  define ty where "ty = \<lfloor>fl (y / tileSize s)\<rfloor>"
  define os where "os = offsets (of_int n)"
  define P where "P = (\<lambda>p. inBounds s (fl (of_int tx + fst p)) (fl (of_int ty + snd p)))"
  define i where "i = (\<lambda>p. tileIndex s (fl (of_int tx + fst p)) (fl (of_int ty + snd p)))"
  have os: "set os = of_int ` {- n..n}" by (simp add: os_def set_offsets_of_int)
  have g: "getNeighbors s x y (of_int n) =
           forEach (List.product os os) (\<lambda>p S. if P p then visit (grid s) (i p) S else Inr S) []"
    unfolding getNeighbors_product tx_def ty_def os_def P_def i_def ..
  have int_tile: "P (of_int j, of_int k) \<longleftrightarrow> inBounds s (of_int (tx + j)) (of_int (ty + k))"
    for j k
  proof -
    have "P (of_int j, of_int k) \<longleftrightarrow>
          inBounds s (fl (of_int (tx + j))) (fl (of_int (ty + k)))"
      by (simp add: P_def)
    then show ?thesis by (simp only: inBounds_fl[OF B])
  qed
  have int_index: "i (of_int j, of_int k) = tileIndex s (of_int (tx + j)) (of_int (ty + k))"
    if "inBounds s (of_int (tx + j)) (of_int (ty + k))" for j k
  proof -
    have "i (of_int j, of_int k) =
          tileIndex s (fl (of_int (tx + j))) (fl (of_int (ty + k)))"
      by (simp add: i_def)
    then show ?thesis by (simp only: inBounds_exact[OF B that])
  qed
  have idx: "is_index (grid s) (i p) \<and>
             (\<exists>a b. p = (of_int (a - tx), of_int (b - ty)) \<and> \<bar>a - tx\<bar> \<le> n \<and> \<bar>b - ty\<bar> \<le> n \<and>
                inBounds s (of_int a) (of_int b) \<and> nat \<lfloor>i p\<rfloor> = tileNat s (a, b))"
    if p: "p \<in> set (List.product os os)" "P p" for p
  proof -
    from p(1) os obtain j k where jk: "fst p = of_int j" "snd p = of_int k"
      "- n \<le> j" "j \<le> n" "- n \<le> k" "k \<le> n" by auto
    have pe: "p = (of_int j, of_int k)" using jk by (simp add: prod_eq_iff)
    have ib: "inBounds s (of_int (tx + j)) (of_int (ty + k))"
      using p(2) unfolding pe int_tile .
    have ip: "i p = tileIndex s (of_int (tx + j)) (of_int (ty + k))"
      unfolding pe by (rule int_index[OF ib])
    have "p = (of_int ((tx + j) - tx), of_int ((ty + k) - ty))"
      using jk by (simp add: prod_eq_iff)
    moreover have "\<bar>(tx + j) - tx\<bar> \<le> n" "\<bar>(ty + k) - ty\<bar> \<le> n" using jk by auto
    ultimately show ?thesis
      using index_in_bounds[OF len ib B] ib unfolding ip by blast
  qed
  define res where
    "res = foldl set_add [] (concat (map (\<lambda>p. grid s ! nat \<lfloor>i p\<rfloor>) (filter P (List.product os os))))"
  have r: "getNeighbors s x y (of_int n) = Inr res"
    unfolding g res_def by (rule forEach_visit) (use idx in blast)
  have d: "distinct res" by (simp add: res_def distinct_foldl_set_add)
  have "set res = (\<Union>p\<in>{p \<in> set (List.product os os). P p}. set (grid s ! nat \<lfloor>i p\<rfloor>))"
    by (simp add: res_def set_foldl_set_add)
  also have "\<dots> = {obj. \<exists>a b. inBounds s (of_int a) (of_int b) \<and>
                        \<bar>a - tx\<bar> \<le> n \<and> \<bar>b - ty\<bar> \<le> n \<and> obj \<in> set (grid s ! tileNat s (a, b))}"
  proof (rule set_eqI, rule iffI)
    fix obj
    assume "obj \<in> (\<Union>p\<in>{p \<in> set (List.product os os). P p}. set (grid s ! nat \<lfloor>i p\<rfloor>))"
    then obtain p where p: "p \<in> set (List.product os os)" "P p" "obj \<in> set (grid s ! nat \<lfloor>i p\<rfloor>)"
      by auto
    from idx[OF p(1,2)] obtain a b where
      "\<bar>a - tx\<bar> \<le> n" "\<bar>b - ty\<bar> \<le> n" "inBounds s (of_int a) (of_int b)"
      "nat \<lfloor>i p\<rfloor> = tileNat s (a, b)" by blast
    with p(3)
    show "obj \<in> {obj. \<exists>a b. inBounds s (of_int a) (of_int b) \<and>
                        \<bar>a - tx\<bar> \<le> n \<and> \<bar>b - ty\<bar> \<le> n \<and> obj \<in> set (grid s ! tileNat s (a, b))}"
      by (simp, blast)
  next
    fix obj
    assume "obj \<in> {obj. \<exists>a b. inBounds s (of_int a) (of_int b) \<and>
                        \<bar>a - tx\<bar> \<le> n \<and> \<bar>b - ty\<bar> \<le> n \<and> obj \<in> set (grid s ! tileNat s (a, b))}"
    then obtain a b where ab: "inBounds s (of_int a) (of_int b)" "\<bar>a - tx\<bar> \<le> n" "\<bar>b - ty\<bar> \<le> n"
      "obj \<in> set (grid s ! tileNat s (a, b))" by auto
    define p :: "real \<times> real" where "p = (of_int (a - tx), of_int (b - ty))"
    have "a - tx \<in> {- n..n}" "b - ty \<in> {- n..n}" using ab by auto
    then have "of_int (a - tx) \<in> set os" "of_int (b - ty) \<in> set os"
      unfolding os by blast+
    then have m: "p \<in> set (List.product os os)" unfolding p_def by simp
    have ib: "inBounds s (of_int (tx + (a - tx))) (of_int (ty + (b - ty)))" using ab(1) by simp
    have P: "P p" unfolding p_def int_tile by (rule ib)
    have "i p = tileIndex s (of_int (tx + (a - tx))) (of_int (ty + (b - ty)))"
      unfolding p_def by (rule int_index[OF ib])
    then have "i p = tileIndex s (of_int a) (of_int b)" by simp
    with index_in_bounds(2)[OF len ab(1) B] have "nat \<lfloor>i p\<rfloor> = tileNat s (a, b)" by simp
    with ab(4) have "obj \<in> set (grid s ! nat \<lfloor>i p\<rfloor>)" by simp
    with m P
    show "obj \<in> (\<Union>p\<in>{p \<in> set (List.product os os). P p}. set (grid s ! nat \<lfloor>i p\<rfloor>))"
      by blast
  qed
  finally show ?thesis using r d unfolding tx_def ty_def by blast
qed

lemma getNeighbors_updated:
  assumes B: "xTiles s * yTiles s < 2 ^ 32"
  shows "\<exists>res. getNeighbors (s\<lparr>grid := buckets h s\<rparr>) x y (of_int n) = Inr res \<and> distinct res \<and>
     set res = {obj \<in> set (objects s). \<exists>a b. inBounds s (of_int a) (of_int b) \<and>
                  \<bar>a - \<lfloor>fl (x / tileSize s)\<rfloor>\<bar> \<le> n \<and> \<bar>b - \<lfloor>fl (y / tileSize s)\<rfloor>\<bar> \<le> n \<and>
                  covers s (h obj) a b}"
proof -
  let ?s = "s\<lparr>grid := buckets h s\<rparr>"
  have len: "length (grid ?s) = nat (xTiles ?s * yTiles ?s)" by simp
  have B': "xTiles ?s * yTiles ?s < 2 ^ 32" using B by simp
  from getNeighbors_int[OF len B', of x y n] obtain res where
    r: "getNeighbors ?s x y (of_int n) = Inr res" "distinct res"
    "set res = {obj. \<exists>a b. inBounds s (of_int a) (of_int b) \<and>
                        \<bar>a - \<lfloor>fl (x / tileSize s)\<rfloor>\<bar> \<le> n \<and> \<bar>b - \<lfloor>fl (y / tileSize s)\<rfloor>\<bar> \<le> n \<and>
                        obj \<in> set (buckets h s ! tileNat s (a, b))}"
    by auto
  have "set res = {obj \<in> set (objects s). \<exists>a b. inBounds s (of_int a) (of_int b) \<and>
                  \<bar>a - \<lfloor>fl (x / tileSize s)\<rfloor>\<bar> \<le> n \<and> \<bar>b - \<lfloor>fl (y / tileSize s)\<rfloor>\<bar> \<le> n \<and>
                  covers s (h obj) a b}"
  proof -
    have "obj \<in> set (buckets h s ! tileNat s (a, b)) \<longleftrightarrow>
          obj \<in> set (objects s) \<and> covers s (h obj) a b"
      if "inBounds s (of_int a) (of_int b)" for a b obj
      using nth_buckets[OF that, of h] by auto
    then show ?thesis unfolding r(3) by blast
  qed
  with r(1,2) show ?thesis by blast
qed

subsection \<open>Claim about the round trip through \<open>getNeighbors\<close>\<close>

lemma tile_mono:
  assumes "0 < tileSize s" "a \<le> b"
  shows "\<lfloor>fl (a / tileSize s)\<rfloor> \<le> \<lfloor>fl (b / tileSize s)\<rfloor>"
proof -
  have "a / tileSize s \<le> b / tileSize s" using assms by (simp add: divide_right_mono)
  then have "fl (a / tileSize s) \<le> fl (b / tileSize s)" by (rule fl_mono)
  then show ?thesis by (rule floor_mono)
qed

lemma no_edges_encloses:
  assumes "obj_left obj = None" "obj_right obj = None" "obj_top obj = None"
    "obj_bottom obj = None" "0 \<le> nullish (obj_radius obj) 0"
  shows "encloses_circle obj"
  using assms by (simp add: encloses_circle_def)

lemma encloses_covers:
  assumes ts: "0 < tileSize s" and e: "encloses_circle obj"
    and d: "fl (obj_x obj) = obj_x obj" "fl (obj_y obj) = obj_y obj"
  shows "covers s obj \<lfloor>fl (obj_x obj / tileSize s)\<rfloor> \<lfloor>fl (obj_y obj / tileSize s)\<rfloor>"
proof -
  define R where "R = nullish (obj_radius obj) 0"
  have R: "0 \<le> R" using e by (simp add: encloses_circle_def Let_def R_def)
  have lo: "fl (c - R) \<le> c" and hi: "c \<le> fl (c + R)" if "fl c = c" for c
  proof -
    have "fl (c - R) \<le> fl c" using R by (intro fl_mono) simp
    then show "fl (c - R) \<le> c" using that by simp
    have "fl c \<le> fl (c + R)" using R by (intro fl_mono) simp
    then show "c \<le> fl (c + R)" using that by simp
  qed
  have l: "nullish (obj_left obj) (fl (obj_x obj - R)) \<le> obj_x obj"
    using e R lo[OF d(1)]
    by (cases "obj_left obj") (simp_all add: encloses_circle_def Let_def R_def[symmetric])
  have r: "obj_x obj \<le> nullish (obj_right obj) (fl (obj_x obj + R))"
    using e R hi[OF d(1)]
    by (cases "obj_right obj") (simp_all add: encloses_circle_def Let_def R_def[symmetric])
  have t: "nullish (obj_top obj) (fl (obj_y obj - R)) \<le> obj_y obj"
    using e R lo[OF d(2)]
    by (cases "obj_top obj") (simp_all add: encloses_circle_def Let_def R_def[symmetric])
  have b: "obj_y obj \<le> nullish (obj_bottom obj) (fl (obj_y obj + R))"
    using e R hi[OF d(2)]
    by (cases "obj_bottom obj") (simp_all add: encloses_circle_def Let_def R_def[symmetric])
  show ?thesis
    unfolding covers_def startX_def startY_def endX_def endY_def R_def[symmetric]
    using tile_mono[OF ts l] tile_mono[OF ts r] tile_mono[OF ts t] tile_mono[OF ts b]
    by simp
qed

lemma example_store_fields [simp]:
  "width example_store = 20" "height example_store = 20" "tileSize example_store = 10"
  "objects example_store = [0]" "grid example_store = []"
  by (simp_all add: example_store_def add_def new_SpatialGrid_def)

text \<open>
  Claim C5, as stated, fails: an object whose centre lies outside the grid is registered in
  no bucket, and \<open>getNeighbors\<close> at its centre visits no tile.
\<close>

theorem neighbors_roundtrip_counterexample:
  "0 \<in> set (objects example_store) \<and>
   update outside_heap example_store = Inr (example_store\<lparr>grid := [[], [], [], []]\<rparr>) \<and>
   getNeighbors (example_store\<lparr>grid := [[], [], [], []]\<rparr>)
     (obj_x (outside_heap 0)) (obj_y (outside_heap 0)) 0 = Inr []"
  unfolding outside_heap_def example_store_def outside_object_def by code_simp

text \<open>
  Claim C5, amended. On a store whose bucket table can be allocated and whose objects have
  tile ranges that the loops of \<open>update\<close> can count through: for every live object whose
  centre tile is in bounds and belongs to the tile range \<open>update\<close> resolves for it (as it
  always does when the object's extent contains the square centre \<open>\<plusminus>\<close> radius, so for every
  object without explicit edges whose radius is absent or non-negative), \<open>update\<close> followed
  by \<open>getNeighbors(objX, objY, 0)\<close> returns a sequence that contains the object.
\<close>

theorem neighbors_roundtrip:
  assumes "valid_store h s" and "obj \<in> set (objects s)"
    and "inBounds s (of_int \<lfloor>fl (obj_x (h obj) / tileSize s)\<rfloor>)
           (of_int \<lfloor>fl (obj_y (h obj) / tileSize s)\<rfloor>)"
    and "encloses_circle (h obj) \<or>
         covers s (h obj) \<lfloor>fl (obj_x (h obj) / tileSize s)\<rfloor> \<lfloor>fl (obj_y (h obj) / tileSize s)\<rfloor>"
  shows "\<exists>s' res. update h s = Inr s' \<and>
           getNeighbors s' (obj_x (h obj)) (obj_y (h obj)) 0 = Inr res \<and> obj \<in> set res"
proof -
  have B: "xTiles s * yTiles s < 2 ^ 32" using assms(1) by (rule valid_store_bound)
  have ts: "0 < tileSize s" using assms(1) by (simp add: valid_store_def valid_grid_def)
  have "valid_object s (h obj)" using assms(1,2) by (simp add: valid_store_def)
  then have d: "fl (obj_x (h obj)) = obj_x (h obj)" "fl (obj_y (h obj)) = obj_y (h obj)"
    by (simp_all add: valid_object_def number_def)
  have c: "covers s (h obj) \<lfloor>fl (obj_x (h obj) / tileSize s)\<rfloor> \<lfloor>fl (obj_y (h obj) / tileSize s)\<rfloor>"
    using assms(4) encloses_covers[OF ts _ d] by blast
  from getNeighbors_updated[OF B, where h = h and x = "obj_x (h obj)" and y = "obj_y (h obj)"
      and n = 0] obtain res where
    r: "getNeighbors (s\<lparr>grid := buckets h s\<rparr>) (obj_x (h obj)) (obj_y (h obj)) 0 = Inr res"
    "set res = {ob \<in> set (objects s). \<exists>a b. inBounds s (of_int a) (of_int b) \<and>
                  \<bar>a - \<lfloor>fl (obj_x (h obj) / tileSize s)\<rfloor>\<bar> \<le> 0 \<and>
                  \<bar>b - \<lfloor>fl (obj_y (h obj) / tileSize s)\<rfloor>\<bar> \<le> 0 \<and> covers s (h ob) a b}"
    by auto
  have "obj \<in> set res"
    unfolding r(2) using assms(2,3) c by fastforce
  with r(1) show ?thesis by (simp add: update_eq[OF B])
qed

theorem neighbors_roundtrip_witness:
  "valid_store circle_heap example_store \<and> 0 \<in> set (objects example_store) \<and>
   inBounds example_store (of_int \<lfloor>fl (obj_x (circle_heap 0) / tileSize example_store)\<rfloor>)
     (of_int \<lfloor>fl (obj_y (circle_heap 0) / tileSize example_store)\<rfloor>) \<and>
   encloses_circle (circle_heap 0) \<and>
   (\<exists>s' res. update circle_heap example_store = Inr s' \<and>
      getNeighbors s' (obj_x (circle_heap 0)) (obj_y (circle_heap 0)) 0 = Inr res \<and>
      0 \<in> set res)"
proof -
  have v: "valid_store circle_heap example_store"
    unfolding circle_heap_def example_store_def circle_object_def by code_simp
  have a: "0 \<in> set (objects example_store)" by simp
  have b: "inBounds example_store (of_int \<lfloor>fl (obj_x (circle_heap 0) / tileSize example_store)\<rfloor>)
     (of_int \<lfloor>fl (obj_y (circle_heap 0) / tileSize example_store)\<rfloor>)"
    unfolding circle_heap_def example_store_def circle_object_def by code_simp
  have p: "encloses_circle (circle_heap 0)"
    by (simp add: encloses_circle_def circle_heap_def circle_object_def)
  have d: "encloses_circle (circle_heap 0) \<or>
      covers example_store (circle_heap 0)
        \<lfloor>fl (obj_x (circle_heap 0) / tileSize example_store)\<rfloor>
        \<lfloor>fl (obj_y (circle_heap 0) / tileSize example_store)\<rfloor>"
    using p by blast
  from neighbors_roundtrip[where s = example_store and obj = 0 and h = circle_heap, OF v a b d]
    v a b p show ?thesis by blast
qed

subsection \<open>Claims about queries that visit no tile\<close>

text \<open>
  Claim C10. For every store, every point and every negative \<open>neighborTiles\<close>,
  \<open>getNeighbors\<close> returns the empty sequence: the offset loops have no iteration.
\<close>

theorem getNeighbors_negative_empty:
  "neighborTiles < 0 \<Longrightarrow> getNeighbors s x y neighborTiles = Inr []"
  by (rule getNeighbors_negative)

theorem getNeighbors_negative_empty_witness:
  "(- 1 :: real) < 0 \<and> getNeighbors example_store 5 5 (- 1) = Inr []"
proof -
  have h: "(- 1 :: real) < 0" by simp
  from getNeighbors_negative_empty[OF h] h show ?thesis by blast
qed

text \<open>
  Claim C7. For a construction with \<open>tileSize > 0\<close> the tile counts are the floors of the
  double quotients \<open>width / tileSize\<close> and \<open>height / tileSize\<close>; a count is 0 when
  \<open>tileSize\<close> exceeds the dimension (a dimension is not negative), and when a count is 0
  all four queries return the empty sequence, whatever the bucket table holds. The query
  arguments are doubles whose tile numbers and loop bounds the loops can count through.
\<close>

theorem tile_counts:
  assumes "valid_grid s"
    and "valid_neighbors s x y n" and "valid_circle s x y r" and "valid_rect s x y w ht"
    and "valid_line s x y toX toY lw"
  shows "xTiles s = \<lfloor>fl (width s / tileSize s)\<rfloor> \<and> yTiles s = \<lfloor>fl (height s / tileSize s)\<rfloor> \<and>
         (0 \<le> width s \<and> width s < tileSize s \<longrightarrow> xTiles s = 0) \<and>
         (0 \<le> height s \<and> height s < tileSize s \<longrightarrow> yTiles s = 0) \<and>
         (xTiles s = 0 \<or> yTiles s = 0 \<longrightarrow>
            getNeighbors s x y n = Inr [] \<and>
            getObjectsIntersectingCircle h s x y r = Inr [] \<and>
            getObjectsIntersectingRect h s x y w ht = Inr [] \<and>
            getObjectsIntersectingLine h s x y toX toY lw = Some (Inr []))"
proof -
  have d: "fl (width s) = width s" "fl (height s) = height s" "fl (tileSize s) = tileSize s"
    and ts: "0 < tileSize s"
    using assms(1) by (simp_all add: valid_grid_def number_def)
  have zero: "\<lfloor>fl (c / tileSize s)\<rfloor> = 0" if c: "0 \<le> c" "c < tileSize s" "fl c = c" for c
  proof -
    have "0 \<le> c / tileSize s" using c(1) ts by simp
    then have "0 \<le> fl (c / tileSize s)" by (rule fl_nonneg)
    moreover have "fl (c / tileSize s) < 1" by (rule fl_quotient_less_one[OF c(1,2,3) d(3)])
    ultimately show ?thesis by (simp add: floor_eq_iff)
  qed
  have X: "xTiles s = 0" if "0 \<le> width s \<and> width s < tileSize s"
    unfolding xTiles_def using that d(1) by (intro zero) simp_all
  have Y: "yTiles s = 0" if "0 \<le> height s \<and> height s < tileSize s"
    unfolding yTiles_def using that d(2) by (intro zero) simp_all
  have Z: "xTiles s \<le> 0 \<or> yTiles s \<le> 0" if "xTiles s = 0 \<or> yTiles s = 0"
    using that by auto
  show ?thesis
    using X Y getNeighbors_no_tiles[OF Z] circle_no_tiles[OF Z] rect_no_tiles[OF Z]
      line_no_tiles[OF Z]
    by (simp add: xTiles_def yTiles_def)
qed

theorem tile_counts_witness:
  "valid_grid tiny_store \<and> valid_neighbors tiny_store 1 1 1 \<and> valid_circle tiny_store 1 1 3 \<and>
   valid_rect tiny_store 1 1 5 5 \<and> valid_line tiny_store 1 1 4 4 2 \<and>
   0 \<le> width tiny_store \<and> 0 \<le> height tiny_store \<and>
   width tiny_store < tileSize tiny_store \<and> height tiny_store < tileSize tiny_store \<and>
   xTiles tiny_store = 0 \<and> yTiles tiny_store = 0 \<and>
   getNeighbors tiny_store 1 1 1 = Inr [] \<and>
   getObjectsIntersectingCircle example_heap tiny_store 1 1 3 = Inr [] \<and>
   getObjectsIntersectingRect example_heap tiny_store 1 1 5 5 = Inr [] \<and>
   getObjectsIntersectingLine example_heap tiny_store 1 1 4 4 2 = Some (Inr [])"
proof -
  have v: "valid_grid tiny_store" "valid_neighbors tiny_store 1 1 1" "valid_circle tiny_store 1 1 3"
    "valid_rect tiny_store 1 1 5 5" "valid_line tiny_store 1 1 4 4 2"
    unfolding tiny_store_def by code_simp+
  have l: "0 \<le> width tiny_store" "0 \<le> height tiny_store"
      "width tiny_store < tileSize tiny_store" "height tiny_store < tileSize tiny_store"
    by (simp_all add: tiny_store_def add_def new_SpatialGrid_def)
  from tile_counts[OF v, of example_heap] l v show ?thesis
    by simp
qed

subsection \<open>Queries read the bucket table only\<close>

lemma getNeighbors_objects [simp]:
  "getNeighbors (s\<lparr>objects := os\<rparr>) x y n = getNeighbors s x y n"
  by (simp add: getNeighbors_def Let_def cong: if_cong)

lemma circle_objects [simp]:
  "getObjectsIntersectingCircle h (s\<lparr>objects := os\<rparr>) x y r =
   getObjectsIntersectingCircle h s x y r"
  by (simp add: getObjectsIntersectingCircle_def)

lemma rect_objects [simp]:
  "getObjectsIntersectingRect h (s\<lparr>objects := os\<rparr>) x y w ht =
   getObjectsIntersectingRect h s x y w ht"
  by (simp add: getObjectsIntersectingRect_def cong: if_cong)

lemma expandTiles_objects [simp]:
  "expandTiles (s\<lparr>objects := os\<rparr>) ts e = expandTiles s ts e"
  by (simp add: expandTiles_def Let_def cong: if_cong)

lemma tileExpansion_objects [simp]:
  "tileExpansion (s\<lparr>objects := os\<rparr>) w = tileExpansion s w"
  by (simp add: tileExpansion_def)

lemma line_objects [simp]:
  "getObjectsIntersectingLine h (s\<lparr>objects := os\<rparr>) fromX fromY toX toY w =
   getObjectsIntersectingLine h s fromX fromY toX toY w"
proof -
  have "tileSize (s\<lparr>objects := os\<rparr>) = tileSize s" "inBounds (s\<lparr>objects := os\<rparr>) = inBounds s"
    by simp_all
  from lineTiles_returns[OF this, of fromX fromY toX toY] obtain r where
    "lineTiles s fromX fromY toX toY = Some r"
    "lineTiles (s\<lparr>objects := os\<rparr>) fromX fromY toX toY = Some r" by blast
  then show ?thesis by (simp add: getObjectsIntersectingLine_def)
qed

subsection \<open>Every returned object comes from a bucket\<close>

lemma visit_bucketed:
  assumes "visit g i S = Inr S'" "set S \<subseteq> bucketed g"
  shows "set S' \<subseteq> bucketed g"
proof -
  from assms(1) have i: "is_index g i" and S': "S' = foldl set_add S (g ! nat \<lfloor>i\<rfloor>)"
    by (auto simp: visit_def bucketAt_def split: if_splits)
  from i have "nat \<lfloor>i\<rfloor> < length g"
    by (simp add: is_index_def) linarith
  then have "set (g ! nat \<lfloor>i\<rfloor>) \<subseteq> bucketed g" unfolding bucketed_def by (metis UN_upper nth_mem)
  with assms(2) show ?thesis by (simp add: S' set_foldl_set_add)
qed

lemma visit_distinct:
  assumes "visit g i S = Inr S'" "distinct S"
  shows "distinct S'"
  using assms by (auto simp: visit_def bucketAt_def distinct_foldl_set_add split: if_splits)

lemma forEach_visit_sound:
  assumes "forEach vs (\<lambda>v S. if P v then visit g (i v) S else Inr S) S0 = Inr S'"
    and "distinct S0 \<and> set S0 \<subseteq> bucketed g"
  shows "distinct S' \<and> set S' \<subseteq> bucketed g"
  by (rule forEach_invariant[where I = "\<lambda>S. distinct S \<and> set S \<subseteq> bucketed g", OF assms])
     (auto split: if_splits dest: visit_distinct visit_bucketed)

lemma getNeighbors_sound:
  assumes "getNeighbors s x y n = Inr res"
  shows "distinct res \<and> set res \<subseteq> bucketed (grid s)"
  by (rule forEach_visit_sound[OF assms[unfolded getNeighbors_product]]) simp

lemma returned_getNeighbors: "returned (getNeighbors s x y n) \<subseteq> bucketed (grid s)"
  using getNeighbors_sound[of s x y n] by (auto simp: returned_def split: sum.splits)

lemma returned_circle:
  "returned (getObjectsIntersectingCircle h s x y r) \<subseteq> bucketed (grid s)"
  using getNeighbors_sound[of s x y "of_int \<lceil>fl (r / tileSize s)\<rceil>"]
  by (auto simp: returned_def getObjectsIntersectingCircle_def split: sum.splits)

lemma rect_product:
  "getObjectsIntersectingRect h s x y w ht =
   forEach (List.product [\<lfloor>fl (x / tileSize s)\<rfloor>..\<lfloor>fl (fl (x + w) / tileSize s)\<rfloor>]
              [\<lfloor>fl (y / tileSize s)\<rfloor>..\<lfloor>fl (fl (y + ht) / tileSize s)\<rfloor>])
     (\<lambda>p acc. if inBounds s (of_int (fst p)) (of_int (snd p))
              then (case bucketAt (grid s) (tileIndex s (of_int (fst p)) (of_int (snd p))) of
                      Inl e \<Rightarrow> Inl e
                    | Inr b \<Rightarrow> Inr (acc @ filter (\<lambda>obj. rectHit (h obj) x y w ht) b))
              else Inr acc) []"
  unfolding getObjectsIntersectingRect_def by (simp add: forEach_product)

lemma bucketAt_bucketed:
  assumes "bucketAt g i = Inr b"
  shows "set b \<subseteq> bucketed g"
proof -
  from assms have "visit g i [] = Inr (foldl set_add [] b)" by (simp add: visit_def)
  from visit_bucketed[OF this] show ?thesis by (simp add: set_foldl_set_add)
qed

lemma forEach_collect_sound:
  assumes "forEach vs (\<lambda>v acc. if P v then (case bucketAt g (i v) of Inl e \<Rightarrow> Inl e
                                            | Inr b \<Rightarrow> Inr (acc @ filter Q b))
                         else Inr acc) acc0 = Inr acc'"
    and "set acc0 \<subseteq> bucketed g"
  shows "set acc' \<subseteq> bucketed g"
proof (rule forEach_invariant[where I = "\<lambda>S. set S \<subseteq> bucketed g", OF assms])
  fix v a b
  assume a: "set a \<subseteq> bucketed g"
    and st: "(if P v then (case bucketAt g (i v) of Inl e \<Rightarrow> Inl e
                          | Inr b \<Rightarrow> Inr (a @ filter Q b)) else Inr a) = Inr b"
  show "set b \<subseteq> bucketed g"
  proof (cases "P v")
    case False
    with st a show ?thesis by simp
  next
    case True
    with st obtain bk where bk: "bucketAt g (i v) = Inr bk" "b = a @ filter Q bk"
      by (auto split: sum.splits)
    from bucketAt_bucketed[OF bk(1)] a bk(2) show ?thesis by auto
  qed
qed

lemma returned_rect:
  "returned (getObjectsIntersectingRect h s x y w ht) \<subseteq> bucketed (grid s)"
proof (cases "getObjectsIntersectingRect h s x y w ht")
  case (Inl e)
  then show ?thesis by (simp add: returned_def)
next
  case (Inr res)
  from forEach_collect_sound[OF Inr[unfolded rect_product]] Inr show ?thesis
    by (simp add: returned_def)
qed

lemma returned_line_bucketed:
  "returned_line (getObjectsIntersectingLine h s fromX fromY toX toY w) \<subseteq> bucketed (grid s)"
proof -
  from lineTiles_returns[of s s fromX fromY toX toY] obtain ts where
    ts: "lineTiles s fromX fromY toX toY = Some ts" by auto
  let ?I = "\<lambda>S. set S \<subseteq> bucketed (grid s)"
  have "set cand \<subseteq> bucketed (grid s)"
    if c: "forEach (expandTiles s ts (tileExpansion s w))
             (\<lambda>tile. visit (grid s) (tileIndex s (of_int (fst tile)) (of_int (snd tile)))) [] =
           Inr cand" for cand
    by (rule forEach_invariant[where I = ?I, OF c]) (auto dest: visit_bucketed)
  then show ?thesis
    by (auto simp: returned_line_def returned_def getObjectsIntersectingLine_def ts
        split: sum.splits)
qed

lemma returned_Inr [simp]: "returned (Inr res) = set res"
  by (simp add: returned_def)

subsection \<open>What the queries return on the table that \<open>update\<close> builds\<close>

lemma circle_updated:
  assumes B: "xTiles s * yTiles s < 2 ^ 32"
  shows "\<exists>res. getObjectsIntersectingCircle h (s\<lparr>grid := buckets h s\<rparr>) x y r = Inr res \<and>
     distinct res \<and>
     set res = {obj \<in> set (objects s). circleHit (h obj) x y r \<and>
                  (\<exists>a b. inBounds s (of_int a) (of_int b) \<and>
                     \<bar>a - \<lfloor>fl (x / tileSize s)\<rfloor>\<bar> \<le> \<lceil>fl (r / tileSize s)\<rceil> \<and>
                     \<bar>b - \<lfloor>fl (y / tileSize s)\<rfloor>\<bar> \<le> \<lceil>fl (r / tileSize s)\<rceil> \<and>
                     covers s (h obj) a b)}"
proof -
  define n where "n = \<lceil>fl (r / tileSize s)\<rceil>"
  from getNeighbors_updated[OF B, where h = h and x = x and y = y and n = n] obtain cand where
    c: "getNeighbors (s\<lparr>grid := buckets h s\<rparr>) x y (of_int n) = Inr cand" "distinct cand"
    "set cand = {obj \<in> set (objects s). \<exists>a b. inBounds s (of_int a) (of_int b) \<and>
                  \<bar>a - \<lfloor>fl (x / tileSize s)\<rfloor>\<bar> \<le> n \<and> \<bar>b - \<lfloor>fl (y / tileSize s)\<rfloor>\<bar> \<le> n \<and>
                  covers s (h obj) a b}"
    by auto
  define res where "res = filter (\<lambda>obj. circleHit (h obj) x y r) cand"
  have q: "getObjectsIntersectingCircle h (s\<lparr>grid := buckets h s\<rparr>) x y r = Inr res"
    using c(1) by (simp add: getObjectsIntersectingCircle_def res_def n_def)
  have d: "distinct res" using c(2) by (simp add: res_def)
  have "set res = {obj \<in> set (objects s). circleHit (h obj) x y r \<and>
                  (\<exists>a b. inBounds s (of_int a) (of_int b) \<and>
                     \<bar>a - \<lfloor>fl (x / tileSize s)\<rfloor>\<bar> \<le> n \<and> \<bar>b - \<lfloor>fl (y / tileSize s)\<rfloor>\<bar> \<le> n \<and>
                     covers s (h obj) a b)}"
    unfolding res_def set_filter c(3) by blast
  with q d show ?thesis unfolding n_def by blast
qed

lemma forEach_collect:
  assumes "\<And>v. v \<in> set vs \<Longrightarrow> P v \<Longrightarrow> is_index g (i v)"
  shows "forEach vs (\<lambda>v acc. if P v then (case bucketAt g (i v) of Inl e \<Rightarrow> Inl e
                                            | Inr b \<Rightarrow> Inr (acc @ filter Q b))
                         else Inr acc) acc0 =
         Inr (acc0 @ concat (map (\<lambda>v. filter Q (g ! nat \<lfloor>i v\<rfloor>)) (filter P vs)))"
  using assms
proof (induction vs arbitrary: acc0)
  case Nil
  then show ?case by simp
next
  case (Cons v vs)
  then show ?case by (simp add: bucketAt_def)
qed

lemma rect_updated:
  assumes B: "xTiles s * yTiles s < 2 ^ 32"
  shows "\<exists>res. getObjectsIntersectingRect h (s\<lparr>grid := buckets h s\<rparr>) x y w ht = Inr res \<and>
     set res = {obj \<in> set (objects s). rectHit (h obj) x y w ht \<and>
                  (\<exists>a b. inBounds s (of_int a) (of_int b) \<and>
                     \<lfloor>fl (x / tileSize s)\<rfloor> \<le> a \<and> a \<le> \<lfloor>fl (fl (x + w) / tileSize s)\<rfloor> \<and>
                     \<lfloor>fl (y / tileSize s)\<rfloor> \<le> b \<and> b \<le> \<lfloor>fl (fl (y + ht) / tileSize s)\<rfloor> \<and>
                     covers s (h obj) a b)}"
proof -
  let ?s = "s\<lparr>grid := buckets h s\<rparr>"
  define ts where "ts = List.product [\<lfloor>fl (x / tileSize s)\<rfloor>..\<lfloor>fl (fl (x + w) / tileSize s)\<rfloor>]
              [\<lfloor>fl (y / tileSize s)\<rfloor>..\<lfloor>fl (fl (y + ht) / tileSize s)\<rfloor>]"
  define P where "P = (\<lambda>p :: int \<times> int. inBounds s (of_int (fst p)) (of_int (snd p)))"
  define i where "i = (\<lambda>p :: int \<times> int. tileIndex s (of_int (fst p)) (of_int (snd p)))"
  define Q where "Q = (\<lambda>obj. rectHit (h obj) x y w ht)"
  have len: "length (buckets h s) = nat (xTiles s * yTiles s)" by simp
  have idx: "is_index (buckets h s) (i p)" "nat \<lfloor>i p\<rfloor> = tileNat s p" if "P p" for p
    using index_in_bounds[OF len that[unfolded P_def] B] by (simp_all add: i_def)
  define res where "res = concat (map (\<lambda>p. filter Q (buckets h s ! nat \<lfloor>i p\<rfloor>)) (filter P ts))"
  have "getObjectsIntersectingRect h ?s x y w ht =
        forEach ts (\<lambda>p acc. if P p then (case bucketAt (buckets h s) (i p) of Inl e \<Rightarrow> Inl e
                                          | Inr b \<Rightarrow> Inr (acc @ filter Q b))
                            else Inr acc) []"
    unfolding rect_product ts_def P_def i_def Q_def by (simp cong: if_cong)
  also have "\<dots> = Inr ([] @ res)"
    unfolding res_def by (rule forEach_collect) (use idx(1) in blast)
  finally have q: "getObjectsIntersectingRect h ?s x y w ht = Inr res" by simp
  have m: "set (buckets h s ! nat \<lfloor>i p\<rfloor>) =
           {obj \<in> set (objects s). covers s (h obj) (fst p) (snd p)}" if "P p" for p
    using nth_buckets[OF that[unfolded P_def], of h] idx(2)[OF that] by simp
  have "set res = {obj \<in> set (objects s). Q obj \<and> (\<exists>p\<in>set ts. P p \<and> covers s (h obj) (fst p) (snd p))}"
  proof (rule set_eqI, rule iffI)
    fix obj
    assume "obj \<in> set res"
    then obtain p where p: "p \<in> set ts" "P p" "obj \<in> set (buckets h s ! nat \<lfloor>i p\<rfloor>)" "Q obj"
      by (auto simp: res_def)
    from p(3) m[OF p(2)] have "obj \<in> set (objects s)" "covers s (h obj) (fst p) (snd p)" by simp_all
    with p(1,2,4)
    show "obj \<in> {obj \<in> set (objects s). Q obj \<and> (\<exists>p\<in>set ts. P p \<and> covers s (h obj) (fst p) (snd p))}"
      by blast
  next
    fix obj
    assume "obj \<in> {obj \<in> set (objects s). Q obj \<and> (\<exists>p\<in>set ts. P p \<and> covers s (h obj) (fst p) (snd p))}"
    then obtain p where p: "obj \<in> set (objects s)" "Q obj" "p \<in> set ts" "P p"
      "covers s (h obj) (fst p) (snd p)" by blast
    from p(1,5) m[OF p(4)] have "obj \<in> set (buckets h s ! nat \<lfloor>i p\<rfloor>)" by simp
    with p(2,3,4) show "obj \<in> set res" by (cases p) (auto simp: res_def)
  qed
  also have "\<dots> = {obj \<in> set (objects s). rectHit (h obj) x y w ht \<and>
                  (\<exists>a b. inBounds s (of_int a) (of_int b) \<and>
                     \<lfloor>fl (x / tileSize s)\<rfloor> \<le> a \<and> a \<le> \<lfloor>fl (fl (x + w) / tileSize s)\<rfloor> \<and>
                     \<lfloor>fl (y / tileSize s)\<rfloor> \<le> b \<and> b \<le> \<lfloor>fl (fl (y + ht) / tileSize s)\<rfloor> \<and>
                     covers s (h obj) a b)}"
  proof -
    have "(\<exists>p\<in>set ts. P p \<and> covers s (h obj) (fst p) (snd p)) \<longleftrightarrow>
          (\<exists>a b. inBounds s (of_int a) (of_int b) \<and>
             \<lfloor>fl (x / tileSize s)\<rfloor> \<le> a \<and> a \<le> \<lfloor>fl (fl (x + w) / tileSize s)\<rfloor> \<and>
             \<lfloor>fl (y / tileSize s)\<rfloor> \<le> b \<and> b \<le> \<lfloor>fl (fl (y + ht) / tileSize s)\<rfloor> \<and>
             covers s (h obj) a b)" for obj
    proof
      assume "\<exists>p\<in>set ts. P p \<and> covers s (h obj) (fst p) (snd p)"
      then obtain p where p: "p \<in> set ts" "P p" "covers s (h obj) (fst p) (snd p)" by blast
      from p(1) have "\<lfloor>fl (x / tileSize s)\<rfloor> \<le> fst p" "fst p \<le> \<lfloor>fl (fl (x + w) / tileSize s)\<rfloor>"
        "\<lfloor>fl (y / tileSize s)\<rfloor> \<le> snd p" "snd p \<le> \<lfloor>fl (fl (y + ht) / tileSize s)\<rfloor>"
        by (auto simp: ts_def)
      with p(2,3) show "\<exists>a b. inBounds s (of_int a) (of_int b) \<and>
             \<lfloor>fl (x / tileSize s)\<rfloor> \<le> a \<and> a \<le> \<lfloor>fl (fl (x + w) / tileSize s)\<rfloor> \<and>
             \<lfloor>fl (y / tileSize s)\<rfloor> \<le> b \<and> b \<le> \<lfloor>fl (fl (y + ht) / tileSize s)\<rfloor> \<and>
             covers s (h obj) a b"
        unfolding P_def by blast
    next
      assume "\<exists>a b. inBounds s (of_int a) (of_int b) \<and>
             \<lfloor>fl (x / tileSize s)\<rfloor> \<le> a \<and> a \<le> \<lfloor>fl (fl (x + w) / tileSize s)\<rfloor> \<and>
             \<lfloor>fl (y / tileSize s)\<rfloor> \<le> b \<and> b \<le> \<lfloor>fl (fl (y + ht) / tileSize s)\<rfloor> \<and>
             covers s (h obj) a b"
      then obtain a b where ab: "inBounds s (of_int a) (of_int b)"
        "\<lfloor>fl (x / tileSize s)\<rfloor> \<le> a" "a \<le> \<lfloor>fl (fl (x + w) / tileSize s)\<rfloor>"
        "\<lfloor>fl (y / tileSize s)\<rfloor> \<le> b" "b \<le> \<lfloor>fl (fl (y + ht) / tileSize s)\<rfloor>"
        "covers s (h obj) a b" by blast
      have "(a, b) \<in> set ts" using ab(2-5) by (simp add: ts_def)
      moreover have "P (a, b)" using ab(1) by (simp add: P_def)
      ultimately show "\<exists>p\<in>set ts. P p \<and> covers s (h obj) (fst p) (snd p)"
        using ab(6) by (intro bexI[of _ "(a, b)"]) simp_all
    qed
    then show ?thesis unfolding Q_def by simp
  qed
  finally show ?thesis using q by blast
qed

lemma set_expandTiles:
  "set (expandTiles s ts e) =
   {(a, b). inBounds s (of_int a) (of_int b) \<and> (\<exists>p\<in>set ts. \<bar>a - fst p\<bar> \<le> e \<and> \<bar>b - snd p\<bar> \<le> e)}"
proof (rule set_eqI, rule iffI)
  fix q
  assume "q \<in> set (expandTiles s ts e)"
  then obtain p ox oy where p: "p \<in> set ts" "- e \<le> ox" "ox \<le> e" "- e \<le> oy" "oy \<le> e"
    "inBounds s (of_int (fst p + ox)) (of_int (snd p + oy))" "q = (fst p + ox, snd p + oy)"
    by (auto simp: expandTiles_def Let_def split: if_splits)
  then have "\<bar>fst q - fst p\<bar> \<le> e" "\<bar>snd q - snd p\<bar> \<le> e" by auto
  with p(1) have "\<exists>p\<in>set ts. \<bar>fst q - fst p\<bar> \<le> e \<and> \<bar>snd q - snd p\<bar> \<le> e" by blast
  moreover have "inBounds s (of_int (fst q)) (of_int (snd q))" using p(6,7) by simp
  ultimately
  show "q \<in> {(a, b). inBounds s (of_int a) (of_int b) \<and>
                (\<exists>p\<in>set ts. \<bar>a - fst p\<bar> \<le> e \<and> \<bar>b - snd p\<bar> \<le> e)}"
    by (simp add: case_prod_unfold)
next
  fix q
  assume "q \<in> {(a, b). inBounds s (of_int a) (of_int b) \<and>
                (\<exists>p\<in>set ts. \<bar>a - fst p\<bar> \<le> e \<and> \<bar>b - snd p\<bar> \<le> e)}"
  then obtain p where p: "p \<in> set ts" "\<bar>fst q - fst p\<bar> \<le> e" "\<bar>snd q - snd p\<bar> \<le> e"
    "inBounds s (of_int (fst q)) (of_int (snd q))" by auto
  define ox where "ox = fst q - fst p"
  define oy where "oy = snd q - snd p"
  have o: "ox \<in> {- e..e}" "oy \<in> {- e..e}" using p(2,3) by (auto simp: ox_def oy_def)
  have q: "q = (fst p + ox, snd p + oy)" by (simp add: ox_def oy_def)
  have "inBounds s (of_int (fst p + ox)) (of_int (snd p + oy))"
    using p(4) by (simp add: ox_def oy_def)
  with p(1) o q show "q \<in> set (expandTiles s ts e)"
    unfolding expandTiles_def Let_def by (subst q) force
qed

lemma line_int:
  assumes len: "length (grid s) = nat (xTiles s * yTiles s)" and B: "xTiles s * yTiles s < 2 ^ 32"
  shows "\<exists>ts cand. lineTiles s fromX fromY toX toY = Some ts \<and>
           getObjectsIntersectingLine h s fromX fromY toX toY w =
             Some (Inr (filter (\<lambda>obj. lineHit (h obj) fromX fromY toX toY w) cand)) \<and>
           distinct cand \<and>
           set cand = {obj. \<exists>p\<in>set (expandTiles s ts (tileExpansion s w)).
                         obj \<in> set (grid s ! tileNat s p)}"
proof -
  from lineTiles_returns[of s s fromX fromY toX toY] obtain ts where
    ts: "lineTiles s fromX fromY toX toY = Some ts" by auto
  define ex where "ex = expandTiles s ts (tileExpansion s w)"
  define i where "i = (\<lambda>tile :: int \<times> int. tileIndex s (of_int (fst tile)) (of_int (snd tile)))"
  have ib: "inBounds s (of_int (fst p)) (of_int (snd p))" if "p \<in> set ex" for p
    using that unfolding ex_def set_expandTiles by auto
  have idx: "is_index (grid s) (i p)" "nat \<lfloor>i p\<rfloor> = tileNat s p" if "p \<in> set ex" for p
    using index_in_bounds[OF len ib[OF that] B] by (simp_all add: i_def)
  define cand where "cand = foldl set_add [] (concat (map (\<lambda>p. grid s ! nat \<lfloor>i p\<rfloor>) ex))"
  have "forEach ex (\<lambda>v S. if True then visit (grid s) (i v) S else Inr S) [] =
        Inr (foldl set_add [] (concat (map (\<lambda>v. grid s ! nat \<lfloor>i v\<rfloor>) (filter (\<lambda>_. True) ex))))"
    by (rule forEach_visit) (use idx(1) in blast)
  then have f: "forEach ex (\<lambda>tile. visit (grid s) (i tile)) [] = Inr cand"
    by (simp add: cand_def)
  have q: "getObjectsIntersectingLine h s fromX fromY toX toY w =
             Some (Inr (filter (\<lambda>obj. lineHit (h obj) fromX fromY toX toY w) cand))"
    using f by (simp add: getObjectsIntersectingLine_def ts ex_def i_def)
  have d: "distinct cand" by (simp add: cand_def distinct_foldl_set_add)
  have "set cand = (\<Union>p\<in>set ex. set (grid s ! nat \<lfloor>i p\<rfloor>))"
    by (simp add: cand_def set_foldl_set_add)
  also have "\<dots> = (\<Union>p\<in>set ex. set (grid s ! tileNat s p))"
    using idx(2) by simp
  finally have "set cand = {obj. \<exists>p\<in>set ex. obj \<in> set (grid s ! tileNat s p)}" by auto
  with ts q d show ?thesis unfolding ex_def by blast
qed

lemma line_updated:
  assumes B: "xTiles s * yTiles s < 2 ^ 32"
  shows "\<exists>ts cand. lineTiles s fromX fromY toX toY = Some ts \<and>
     getObjectsIntersectingLine h (s\<lparr>grid := buckets h s\<rparr>) fromX fromY toX toY w =
       Some (Inr (filter (\<lambda>obj. lineHit (h obj) fromX fromY toX toY w) cand)) \<and>
     distinct cand \<and>
     set cand = {obj \<in> set (objects s). \<exists>p\<in>set (expandTiles s ts (tileExpansion s w)).
                   covers s (h obj) (fst p) (snd p)}"
proof -
  let ?s = "s\<lparr>grid := buckets h s\<rparr>"
  have e: "expandTiles ?s = expandTiles s"
    by (simp add: fun_eq_iff expandTiles_def Let_def cong: if_cong)
  have x: "tileExpansion ?s = tileExpansion s"
    by (simp add: fun_eq_iff tileExpansion_def)
  have "tileSize ?s = tileSize s" "inBounds ?s = inBounds s" by simp_all
  from lineTiles_returns[OF this, of fromX fromY toX toY] obtain ts where
    ts: "lineTiles s fromX fromY toX toY = Some ts" "lineTiles ?s fromX fromY toX toY = Some ts"
    by blast
  have len: "length (grid ?s) = nat (xTiles ?s * yTiles ?s)" by simp
  have B': "xTiles ?s * yTiles ?s < 2 ^ 32" using B by simp
  from line_int[OF len B', of fromX fromY toX toY h w] ts(2) obtain cand where
    c: "getObjectsIntersectingLine h ?s fromX fromY toX toY w =
             Some (Inr (filter (\<lambda>obj. lineHit (h obj) fromX fromY toX toY w) cand))"
    "distinct cand"
    "set cand = {obj. \<exists>p\<in>set (expandTiles s ts (tileExpansion s w)).
                         obj \<in> set (buckets h s ! tileNat s p)}"
    by (auto simp: e x)
  have m: "obj \<in> set (buckets h s ! tileNat s p) \<longleftrightarrow>
           obj \<in> set (objects s) \<and> covers s (h obj) (fst p) (snd p)"
    if "p \<in> set (expandTiles s ts (tileExpansion s w))" for p obj
  proof -
    from that have "inBounds s (of_int (fst p)) (of_int (snd p))"
      unfolding set_expandTiles by auto
    from nth_buckets[OF this, of h] show ?thesis by auto
  qed
  have "set cand = {obj \<in> set (objects s). \<exists>p\<in>set (expandTiles s ts (tileExpansion s w)).
                   covers s (h obj) (fst p) (snd p)}"
    unfolding c(3) using m by blast
  with ts(1) c(1,2) show ?thesis by blast
qed

subsection \<open>Claim about the circle query\<close>

text \<open>
  Claim C3, as stated, fails: the object of the example store satisfies the distance
  inequality for the query \<open>(10, 10, 0)\<close> and is returned with tile size 10, but the same
  store with tile size 30 has no tile and returns nothing.
\<close>

theorem circle_query_counterexample:
  "spec_circle_test (example_heap 0) 10 10 0 \<and>
   update example_heap example_store = Inr (example_store\<lparr>grid := [[0], [0], [0], [0]]\<rparr>) \<and>
   getObjectsIntersectingCircle example_heap (example_store\<lparr>grid := [[0], [0], [0], [0]]\<rparr>)
     10 10 0 = Inr [0] \<and>
   update example_heap (example_store\<lparr>tileSize := 30\<rparr>) =
     Inr (example_store\<lparr>tileSize := 30, grid := []\<rparr>) \<and>
   getObjectsIntersectingCircle example_heap (example_store\<lparr>tileSize := 30, grid := []\<rparr>)
     10 10 0 = Inr []"
  unfolding example_heap_def example_store_def example_object_def by code_simp

text \<open>
  Claim C3, amended. On a store whose bucket table can be allocated and whose objects have
  tile ranges that the loops of \<open>update\<close> can count through, and for a query whose tile
  numbers and tile radius \<open>ceil(r / tileSize)\<close> the loops of the query can count through:
  after \<open>update\<close>, \<open>getObjectsIntersectingCircle(x, y, r)\<close> returns, without repetition,
  exactly the live objects that satisfy
  \<open>(objX - x)\<^sup>2 + (objY - y)\<^sup>2 \<le> (objRadius + r)\<^sup>2\<close> in double arithmetic
  (\<open>objRadius = 0\<close> when absent) and whose extent spans a tile of the grid that is at most
  \<open>ceil(r / tileSize)\<close> tiles away, on each axis, from the tile of \<open>(x, y)\<close>. So the result
  depends on the tile size through the tiles alone.
\<close>

theorem circle_query:
  assumes "valid_store h s" and "valid_circle s x y r"
  shows "\<exists>s' res. update h s = Inr s' \<and>
           getObjectsIntersectingCircle h s' x y r = Inr res \<and> distinct res \<and>
           set res = {obj \<in> set (objects s). spec_circle_test (h obj) x y r \<and>
                        (\<exists>tx ty. spec_in_grid s tx ty \<and>
                           \<bar>tx - spec_tile s x\<bar> \<le> \<lceil>fl (r / tileSize s)\<rceil> \<and>
                           \<bar>ty - spec_tile s y\<bar> \<le> \<lceil>fl (r / tileSize s)\<rceil> \<and>
                           spec_spans s (h obj) tx ty)}"
proof -
  have B: "xTiles s * yTiles s < 2 ^ 32" using assms(1) by (rule valid_store_bound)
  from circle_updated[OF B, of h x y r] update_eq[OF B, of h] show ?thesis
    unfolding circleHit_spec inBounds_spec covers_spans spec_tile_def by blast
qed

theorem circle_query_witness:
  "valid_store circle_heap example_store \<and> valid_circle example_store 15 5 5 \<and>
   0 \<in> set (objects example_store) \<and> spec_circle_test (circle_heap 0) 15 5 5 \<and>
   spec_in_grid example_store 1 0 \<and> spec_tile example_store 15 = 1 \<and>
   spec_tile example_store 5 = 0 \<and> \<lceil>fl (5 / tileSize example_store)\<rceil> = 1 \<and>
   spec_spans example_store (circle_heap 0) 1 0 \<and>
   (\<exists>s' res. update circle_heap example_store = Inr s' \<and>
      getObjectsIntersectingCircle circle_heap s' 15 5 5 = Inr res \<and> distinct res \<and>
      0 \<in> set res)"
proof -
  have v: "valid_store circle_heap example_store" "valid_circle example_store 15 5 5"
    unfolding circle_heap_def example_store_def circle_object_def by code_simp+
  have o: "0 \<in> set (objects example_store)" by simp
  have c: "spec_circle_test (circle_heap 0) 15 5 5" "spec_in_grid example_store 1 0"
    "spec_tile example_store 15 = 1" "spec_tile example_store 5 = 0"
    "\<lceil>fl (5 / tileSize example_store)\<rceil> = 1" "spec_spans example_store (circle_heap 0) 1 0"
    unfolding circle_heap_def example_store_def circle_object_def by code_simp+
  from circle_query[OF v] obtain s' res where
    u: "update circle_heap example_store = Inr s'"
      "getObjectsIntersectingCircle circle_heap s' 15 5 5 = Inr res" "distinct res"
    and m: "set res = {obj \<in> set (objects example_store). spec_circle_test (circle_heap obj) 15 5 5 \<and>
                        (\<exists>tx ty. spec_in_grid example_store tx ty \<and>
                           \<bar>tx - spec_tile example_store 15\<bar> \<le> \<lceil>fl (5 / tileSize example_store)\<rceil> \<and>
                           \<bar>ty - spec_tile example_store 5\<bar> \<le> \<lceil>fl (5 / tileSize example_store)\<rceil> \<and>
                           spec_spans example_store (circle_heap obj) tx ty)}"
    by blast
  have "\<bar>1 - spec_tile example_store 15\<bar> \<le> \<lceil>fl (5 / tileSize example_store)\<rceil>"
    "\<bar>0 - spec_tile example_store 5\<bar> \<le> \<lceil>fl (5 / tileSize example_store)\<rceil>"
    unfolding c(3,4,5) by simp_all
  with o c(1,2,6) have "0 \<in> set res" unfolding m by blast
  with v o c u show ?thesis by blast
qed

subsection \<open>Deduplication, and queries on a fresh store\<close>

text \<open>
  \<open>getNeighbors\<close>, the circle query and the line query collect their candidates in a
  \<open>Set\<close>: whatever the bucket table holds, what they return has no repetition.
\<close>

lemma getNeighbors_distinct: "getNeighbors s x y n = Inr res \<Longrightarrow> distinct res"
  using getNeighbors_sound by blast

lemma circle_distinct:
  "getObjectsIntersectingCircle h s x y r = Inr res \<Longrightarrow> distinct res"
  using getNeighbors_sound[of s x y "of_int \<lceil>fl (r / tileSize s)\<rceil>"]
  by (auto simp: getObjectsIntersectingCircle_def split: sum.splits)

lemma line_distinct:
  assumes "getObjectsIntersectingLine h s fromX fromY toX toY w = Some (Inr res)"
  shows "distinct res"
proof -
  from lineTiles_returns[of s s fromX fromY toX toY] obtain ts where
    ts: "lineTiles s fromX fromY toX toY = Some ts" by auto
  from assms obtain cand where
    c: "forEach (expandTiles s ts (tileExpansion s w))
          (\<lambda>tile. visit (grid s) (tileIndex s (of_int (fst tile)) (of_int (snd tile)))) [] =
        Inr cand"
    and r: "res = filter (\<lambda>obj. lineHit (h obj) fromX fromY toX toY w) cand"
    by (auto simp: getObjectsIntersectingLine_def ts split: sum.splits)
  have "distinct cand"
    by (rule forEach_invariant[where I = distinct, OF c]) (auto dest: visit_distinct)
  with r show ?thesis by simp
qed

text \<open>
  Claim C1 (the rectangle query does not deduplicate). One object whose edges span the four
  tiles of a \<open>2 \<times> 2\<close> grid is pushed once per visited bucket: after \<open>update\<close>,
  \<open>getObjectsIntersectingRect(0, 0, 20, 20)\<close> returns the same reference four times.
\<close>

theorem rect_returns_duplicates:
  "update example_heap example_store = Inr (example_store\<lparr>grid := [[0], [0], [0], [0]]\<rparr>) \<and>
   getObjectsIntersectingRect example_heap (example_store\<lparr>grid := [[0], [0], [0], [0]]\<rparr>)
     0 0 20 20 = Inr [0, 0, 0, 0]"
  unfolding example_heap_def example_store_def example_object_def by code_simp

text \<open>
  Before the first \<open>update\<close> the bucket table is the empty array: a loop over tiles throws
  at the first in-bounds tile, and returns its initial state when there is none.
\<close>

lemma visit_fresh: "visit [] i S = Inl TypeError"
  by (simp add: visit_def bucketAt_def is_index_def)

lemma forEach_visit_fresh:
  "forEach vs (\<lambda>v S. if P v then visit [] (i v) S else Inr S) S0 =
   (if \<exists>v\<in>set vs. P v then Inl TypeError else Inr S0)"
  by (induction vs arbitrary: S0) (auto simp: visit_fresh)

lemma getNeighbors_fresh:
  assumes "grid s = []"
  shows "getNeighbors s x y n =
         (if \<exists>offsetX\<in>set (offsets n). \<exists>offsetY\<in>set (offsets n).
               inBounds s (fl (of_int \<lfloor>fl (x / tileSize s)\<rfloor> + offsetX))
                 (fl (of_int \<lfloor>fl (y / tileSize s)\<rfloor> + offsetY))
          then Inl TypeError else Inr [])"
  unfolding getNeighbors_product assms forEach_visit_fresh by auto

text \<open>
  Claim C2 (queries before the first \<open>update\<close>). On a freshly constructed \<open>20 \<times> 20\<close>
  store with tile size 10 and one object added, the bucket table is still the empty array,
  and each of the four queries throws at the first in-bounds tile it visits.
\<close>

theorem query_before_update_throws:
  "grid example_store = [] \<and>
   getNeighbors example_store 5 5 0 = Inl TypeError \<and>
   getObjectsIntersectingCircle example_heap example_store 5 5 1 = Inl TypeError \<and>
   getObjectsIntersectingRect example_heap example_store 0 0 5 5 = Inl TypeError \<and>
   getObjectsIntersectingLine example_heap example_store 0 0 15 15 0 = Some (Inl TypeError)"
  unfolding example_heap_def example_store_def example_object_def by code_simp

end
